theory Spec2Isabelle
  imports Complex_Main "HOL-Library.Char_ord" "HOL-Library.List_Lexorder"
begin

section \<open>Definitions\<close>

text \<open>
  The sidekick hooks are short Python scripts that keep their state in JSON files of a
  per-project directory.  Each script is embedded as a function from the persisted state
  (and the environment it reads: the clock, the file system, the reply of the reasoning
  service) to the new persisted state and the observable result.  An uncaught Python
  exception is a value of \<open>py_error\<close>.
\<close>

datatype py_error = ZeroDivisionError | IndexError | TypeError

subsection \<open>sidekick-counter.py: the trigger gate\<close>

text \<open>
  \<open>state.json\<close> is a dictionary; \<open>load_state\<close> yields the empty dictionary when the file
  is absent or unreadable, so both keys are optional.  \<open>time.time()\<close> is a number of
  seconds.
\<close>

record counter_state =
  count :: "int option"
  last_run :: "real option"

text \<open>
  What one run of the hook reads from its environment: the clock, whether the worker
  script is installed (\<open>worker.exists()\<close>) and whether \<open>subprocess.Popen\<close> returns
  rather than raises.
\<close>

record hook_env =
  now :: real
  worker_exists :: bool
  popen_ok :: bool

record launch =
  should_launch :: bool
  spawned :: bool

definition get_count :: "counter_state \<Rightarrow> int" where
  "get_count s = (case count s of None \<Rightarrow> 0 | Some c \<Rightarrow> c)"

definition get_last_run :: "counter_state \<Rightarrow> real" where
  "get_last_run s = (case last_run s of None \<Rightarrow> 0 | Some t \<Rightarrow> t)"

text \<open>
  \<open>main\<close> of sidekick-counter.py.  The incremented count is saved before the gate is
  evaluated; \<open>count % INTERVAL\<close> raises when \<open>INTERVAL\<close> is zero; \<open>last_run\<close> is saved
  only inside \<open>if worker.exists()\<close>, after \<open>Popen\<close> has returned.  The result is the
  state left on disk and either the exception or the decision taken.
\<close>

definition counter_main ::
  "int \<Rightarrow> int \<Rightarrow> hook_env \<Rightarrow> counter_state \<Rightarrow> counter_state \<times> (py_error + launch)" where
  "counter_main INTERVAL COOLDOWN_S e s =
     (let cnt = get_count s + 1;
          lr = get_last_run s;
          s1 = s\<lparr>count := Some cnt\<rparr>
      in if INTERVAL = 0 then (s1, Inl ZeroDivisionError)
         else if cnt mod INTERVAL = 0 \<and> now e - lr \<ge> of_int COOLDOWN_S then
           (if worker_exists e \<and> popen_ok e
            then (s1\<lparr>last_run := Some (now e)\<rparr>, Inr \<lparr>should_launch = True, spawned = True\<rparr>)
            else (s1, Inr \<lparr>should_launch = True, spawned = False\<rparr>))
         else (s1, Inr \<lparr>should_launch = False, spawned = False\<rparr>))"

text \<open>The hook is started once per tool call; the runs share only \<open>state.json\<close>.\<close>

fun run_events ::
  "int \<Rightarrow> int \<Rightarrow> counter_state \<Rightarrow> hook_env list \<Rightarrow> counter_state \<times> (py_error + launch) list" where
  "run_events INTERVAL COOLDOWN_S s [] = (s, [])"
| "run_events INTERVAL COOLDOWN_S s (e # es) =
     (let (s1, r) = counter_main INTERVAL COOLDOWN_S e s;
          (s2, rs) = run_events INTERVAL COOLDOWN_S s1 es
      in (s2, r # rs))"

definition fired :: "py_error + launch \<Rightarrow> bool" where
  "fired r = (case r of Inl _ \<Rightarrow> False | Inr l \<Rightarrow> should_launch l)"

definition fresh_state :: counter_state where
  "fresh_state = \<lparr>count = None, last_run = None\<rparr>"

subsection \<open>Python strings\<close>

text \<open>
  A Python string is a list of code points; \<open>char\<close> has the code points below 256, which
  is the part of Unicode the model covers.  \<open>str.isspace\<close> and the line boundaries of
  \<open>str.splitlines\<close> are given for these code points.
\<close>

definition NL :: string where
  "NL = [CHR 0x0A]"

definition py_isspace :: "char \<Rightarrow> bool" where
  "py_isspace c = ((of_char c :: nat) \<in> {9, 10, 11, 12, 13, 28, 29, 30, 31, 32, 133, 160})"

definition strip :: "string \<Rightarrow> string" where
  "strip s = rev (dropWhile py_isspace (rev (dropWhile py_isspace s)))"

definition get_str :: "string option \<Rightarrow> string" where
  "get_str v = (case v of None \<Rightarrow> [] | Some s \<Rightarrow> s)"

subsection \<open>sidekick-nudge.py: delivery of the pending nudge\<close>

text \<open>
  The value under \<open>created_at\<close>, as \<open>datetime.fromisoformat\<close> sees it: a time with an
  offset (seconds since the epoch), a time without one, or nothing that parses (the key
  is missing or the string is not ISO-8601; both end in the \<open>except\<close> branch).
\<close>

datatype created = Aware real | Naive real | NoTime

record pending =
  created_at :: created
  ttl_seconds :: "int option"
  nudge_markdown :: "string option"
  commands :: "string list"
  score :: real
  reason :: "string option"

text \<open>\<open>pending_feedback.json\<close>: not there, there but not JSON, or a record.\<close>

datatype pending_file = Absent | Unparsable | Pending pending

text \<open>What the hook prints to stderr: the reason (when not empty) and the nudge.\<close>

datatype shown = Shown string string

text \<open>
  \<open>main\<close> of sidekick-nudge.py, from the test for the pending file on.  \<open>t0\<close> is the clock
  read in the \<open>except\<close> branch, \<open>t1\<close> the clock read for the age.  Subtracting a time
  without offset from one with offset raises \<open>TypeError\<close>.  The result is the file left
  on disk and either the exception or the exit code with what was printed.
\<close>

definition nudge_main ::
  "real \<Rightarrow> real \<Rightarrow> pending_file \<Rightarrow> pending_file \<times> (py_error + int \<times> shown option)" where
  "nudge_main t0 t1 f =
     (case f of
        Absent \<Rightarrow> (f, Inr (0, None))
      | Unparsable \<Rightarrow> (f, Inr (0, None))
      | Pending d \<Rightarrow>
          (let ttl = (case ttl_seconds d of None \<Rightarrow> 600 | Some n \<Rightarrow> n)
           in case created_at d of
                Naive _ \<Rightarrow> (f, Inl TypeError)
              | c \<Rightarrow>
                 (let created_ts = (case c of Aware t \<Rightarrow> t | _ \<Rightarrow> t0);
                      age = t1 - created_ts
                  in if age > of_int ttl then (Absent, Inr (0, None))
                     else
                       (let nudge = strip (get_str (nudge_markdown d));
                            why = get_str (reason d)
                        in if nudge \<noteq> [] then (Absent, Inr (1, Some (Shown why nudge)))
                           else (f, Inr (0, None))))))"

text \<open>The text a run delivered, if any.\<close>

definition delivered :: "py_error + int \<times> shown option \<Rightarrow> shown option" where
  "delivered r = (case r of Inl _ \<Rightarrow> None | Inr (_, out) \<Rightarrow> out)"

text \<open>The age test of the hook, for a record whose \<open>created_at\<close> has no missing offset.\<close>

definition stale :: "real \<Rightarrow> real \<Rightarrow> pending \<Rightarrow> bool" where
  "stale t0 t1 d =
     (t1 - (case created_at d of Aware t \<Rightarrow> t | _ \<Rightarrow> t0)
        > of_int (case ttl_seconds d of None \<Rightarrow> 600 | Some n \<Rightarrow> n))"

definition naive :: "pending \<Rightarrow> bool" where
  "naive d = (case created_at d of Naive _ \<Rightarrow> True | _ \<Rightarrow> False)"

subsection \<open>Lines of a text\<close>

text \<open>
  \<open>str.splitlines\<close>: the text is cut at every line boundary, \<open>\r\n\<close> counting as one,
  and a boundary at the very end opens no further line.
\<close>

definition line_break :: "char \<Rightarrow> bool" where
  "line_break c = ((of_char c :: nat) \<in> {10, 11, 12, 13, 28, 29, 30, 133})"

fun splitlines :: "string \<Rightarrow> string list" where
  "splitlines [] = []"
| "splitlines [c] = (if line_break c then [[]] else [[c]])"
| "splitlines (c # d # cs) =
     (if c = CHR 0x0D \<and> d = CHR 0x0A then [] # splitlines cs
      else if line_break c then [] # splitlines (d # cs)
      else (case splitlines (d # cs) of
              [] \<Rightarrow> [[c]]
            | l # ls \<Rightarrow> (c # l) # ls))"

text \<open>\<open>sep.join(xs)\<close>.\<close>

fun join :: "string \<Rightarrow> string list \<Rightarrow> string" where
  "join sep [] = []"
| "join sep [x] = x"
| "join sep (x # y # ys) = x @ sep @ join sep (y # ys)"

text \<open>The slices \<open>xs[i:]\<close> and \<open>xs[:j]\<close>; a negative index counts from the end.\<close>

definition slice_from :: "int \<Rightarrow> 'a list \<Rightarrow> 'a list" where
  "slice_from i xs = (if i < 0 then drop (nat (int (length xs) + i)) xs else drop (nat i) xs)"

definition slice_to :: "int \<Rightarrow> 'a list \<Rightarrow> 'a list" where
  "slice_to j xs = (if j < 0 then take (nat (int (length xs) + j)) xs else take (nat j) xs)"

subsection \<open>sidekick-review-worker.py: the transcript cursor\<close>

text \<open>
  A line of the transcript is JSON or not.  An entry is a dictionary, read through
  \<open>get\<close>: a missing key is \<open>None\<close>.  A content segment is seen through the keys the
  readers use: the text; for a tool use the name, the \<open>json.dumps\<close> of the kept
  parameters and the \<open>file_path\<close> of the input; for a tool result the keys \<open>output\<close>
  and \<open>content\<close>.
\<close>

datatype segment =
    SText "string option"
  | SToolUse "string option" string "string option"
  | SToolResult "string option" "string option"
  | SOther

datatype content = CStr string | CList "segment list" | COther

record raw_message =
  msg_role :: "string option"
  msg_content :: "content option"

record entry =
  e_timestamp :: "string option"
  e_type :: "string option"
  e_message :: "raw_message option"

datatype line = Malformed | Entry entry

text \<open>The dictionaries the reader returns.\<close>

record msg =
  role :: string
  msg_text :: string
  timestamp :: string
  tools :: "string list"

text \<open>The loop over a list content: the text parts and the tool names, in order.\<close>

fun flatten :: "string list \<Rightarrow> string list \<Rightarrow> segment list \<Rightarrow> string list \<times> string list" where
  "flatten text_parts tls [] = (text_parts, tls)"
| "flatten text_parts tls (SText t # cs) = flatten (text_parts @ [get_str t]) tls cs"
| "flatten text_parts tls (SToolUse n snip file_path # cs) =
     flatten (text_parts @ [''[TOOL USE '' @ get_str n @ ''] '' @ snip]) (tls @ [get_str n]) cs"
| "flatten text_parts tls (SToolResult out cnt # cs) =
     flatten (text_parts @ [''[TOOL RESULT] '' @ join NL (take 40 (splitlines (get_str out)))])
       tls cs"
| "flatten text_parts tls (SOther # cs) = flatten text_parts tls cs"

text \<open>
  The body of the loop after the watermark test: the message of an entry, if the entry
  has a type of the three, a message, and a text that is not empty once stripped.
\<close>

definition entry_msg :: "entry \<Rightarrow> msg option" where
  "entry_msg e =
     (case e_message e of
        None \<Rightarrow> None
      | Some m \<Rightarrow>
          if e_type e \<in> {Some ''user'', Some ''assistant'', Some ''system''} then
            (let rl = (case msg_role m of None \<Rightarrow> get_str (e_type e) | Some r \<Rightarrow> r);
                 cnt = (case msg_content m of None \<Rightarrow> CStr [] | Some c \<Rightarrow> c);
                 (text_parts, tls) =
                    (case cnt of
                       CList cs \<Rightarrow> flatten [] [] cs
                     | CStr s \<Rightarrow> ([s], [])
                     | COther \<Rightarrow> ([], []));
                 txt = strip (join NL text_parts)
             in if txt \<noteq> [] then
                  Some \<lparr>role = rl, msg_text = txt, timestamp = get_str (e_timestamp e), tools = tls\<rparr>
                else None)
          else None)"

text \<open>\<open>if last_ts and ts and ts <= last_ts: continue\<close>; strings compare by code points.\<close>

definition skipped :: "string option \<Rightarrow> string \<Rightarrow> bool" where
  "skipped last_ts ts = (get_str last_ts \<noteq> [] \<and> ts \<noteq> [] \<and> ts \<le> get_str last_ts)"

fun read_loop :: "string option \<Rightarrow> msg list \<Rightarrow> line list \<Rightarrow> msg list" where
  "read_loop last_ts msgs [] = msgs"
| "read_loop last_ts msgs (Malformed # ls) = read_loop last_ts msgs ls"
| "read_loop last_ts msgs (Entry e # ls) =
     (if skipped last_ts (get_str (e_timestamp e)) then read_loop last_ts msgs ls
      else (case entry_msg e of
              None \<Rightarrow> read_loop last_ts msgs ls
            | Some m \<Rightarrow> read_loop last_ts (msgs @ [m]) ls))"

text \<open>\<open>read_messages_since\<close>; the transcript is \<open>None\<close> when there is no file.\<close>

definition read_messages_since :: "line list option \<Rightarrow> string option \<Rightarrow> msg list" where
  "read_messages_since transcript last_ts =
     (case transcript of None \<Rightarrow> [] | Some ls \<Rightarrow> read_loop last_ts [] ls)"

text \<open>
  The cursor as the specification words it, with the two cases the code adds: the events
  of the transcript (the entries that yield a message), in append order, whose timestamp
  is after the watermark, or is empty, or any when no watermark is set.
\<close>

definition events :: "line list \<Rightarrow> msg list" where
  "events ls = List.map_filter (\<lambda>l. case l of Malformed \<Rightarrow> None | Entry e \<Rightarrow> entry_msg e) ls"

definition newer :: "string option \<Rightarrow> msg \<Rightarrow> bool" where
  "newer w m =
     (case w of None \<Rightarrow> True | Some x \<Rightarrow> x = [] \<or> timestamp m = [] \<or> x < timestamp m)"

definition events_after :: "string option \<Rightarrow> line list \<Rightarrow> msg list" where
  "events_after w ls = filter (newer w) (events ls)"

subsection \<open>sidekick-review-worker.py: the context sanitizer\<close>

text \<open>\<open>str(n)\<close> for an integer.\<close>

fun str_nat :: "nat \<Rightarrow> string" where
  "str_nat n =
     (if n < 10 then [char_of (48 + n)]
      else str_nat (n div 10) @ [char_of (48 + n mod 10)])"

declare str_nat.simps [simp del]

definition str_int :: "int \<Rightarrow> string" where
  "str_int i = (if i < 0 then CHR ''-'' # str_nat (nat (- i)) else str_nat (nat i))"

text \<open>The line appended where lines were cut, without the newline before it.\<close>

definition truncated_marker :: "int \<Rightarrow> string" where
  "truncated_marker n = ''... [truncated '' @ str_int n @ '' lines]''"

definition truncate_block_lines :: "string \<Rightarrow> int \<Rightarrow> string" where
  "truncate_block_lines txt max_lines =
     (let lines = splitlines txt
      in if int (length lines) \<le> max_lines then txt
         else join NL (slice_to max_lines lines) @ NL
                @ truncated_marker (int (length lines) - max_lines))"

text \<open>The callback \<open>_trim_block\<close> of \<open>sanitize\<close>, applied to each fenced block.\<close>

definition trim_block :: "int \<Rightarrow> string \<Rightarrow> string" where
  "trim_block MAX_BLOCK_LINES block =
     (let head = take 3 block;
          body = (if length block > 6 then slice_to (- 3) (slice_from 3 block) else []);
          tail = (if length block > 6 then slice_from (- 3) block else [])
      in head @ truncate_block_lines body MAX_BLOCK_LINES @ tail)"

text \<open>
  What \<open>sanitize\<close> takes from the standard library: \<open>str.upper\<close>, and the three calls of
  \<open>re.sub\<close> (identifier pairs, colour escapes, and the fenced blocks, the last with a
  callback).  They are parameters: the line cap holds whatever they return.
\<close>

record pylib =
  upper :: "string \<Rightarrow> string"
  sub_ids :: "string \<Rightarrow> string"
  sub_ansi :: "string \<Rightarrow> string"
  sub_blocks :: "(string \<Rightarrow> string) \<Rightarrow> string \<Rightarrow> string"

definition cleaned_chunk :: "pylib \<Rightarrow> int \<Rightarrow> msg \<Rightarrow> string" where
  "cleaned_chunk lib MAX_BLOCK_LINES m =
     (let txt = sub_blocks lib (trim_block MAX_BLOCK_LINES) (sub_ansi lib (sub_ids lib (msg_text m)))
      in upper lib (role m) @ '' @ '' @ timestamp m @ NL @ txt @ NL)"

definition separator :: string where
  "separator = NL @ replicate 60 (CHR ''-'') @ NL"

text \<open>The global line cap at the end of \<open>sanitize\<close>.\<close>

definition line_cap :: "int \<Rightarrow> string \<Rightarrow> string" where
  "line_cap MAX_LINES_TOTAL all_text =
     (let lines = splitlines all_text
      in if int (length lines) > MAX_LINES_TOTAL then
           join NL (slice_to MAX_LINES_TOTAL lines) @ NL
             @ truncated_marker (int (length lines) - MAX_LINES_TOTAL)
         else all_text)"

text \<open>The text before the cap, and \<open>sanitize\<close> of sidekick-review-worker.py.\<close>

definition all_text :: "pylib \<Rightarrow> int \<Rightarrow> int \<Rightarrow> msg list \<Rightarrow> string" where
  "all_text lib MAX_EVENTS MAX_BLOCK_LINES messages =
     join separator (map (cleaned_chunk lib MAX_BLOCK_LINES) (slice_from (- MAX_EVENTS) messages))"

definition sanitize :: "pylib \<Rightarrow> int \<Rightarrow> int \<Rightarrow> int \<Rightarrow> msg list \<Rightarrow> string" where
  "sanitize lib MAX_EVENTS MAX_LINES_TOTAL MAX_BLOCK_LINES messages =
     line_cap MAX_LINES_TOTAL (all_text lib MAX_EVENTS MAX_BLOCK_LINES messages)"

text \<open>
  \<open>sanitize\<close> of sidekick-review-worker-enhanced.py: with \<open>include_older\<close>, every fifth of
  the older messages (the last twenty of them) goes before the recent ones.
\<close>

fun every_fifth :: "'a list \<Rightarrow> 'a list" where
  "every_fifth (a # b # c # d # e # xs) = a # every_fifth xs"
| "every_fifth (a # xs) = [a]"
| "every_fifth [] = []"

definition all_text_enhanced :: "pylib \<Rightarrow> int \<Rightarrow> int \<Rightarrow> bool \<Rightarrow> msg list \<Rightarrow> string" where
  "all_text_enhanced lib MAX_EVENTS MAX_BLOCK_LINES include_older messages =
     (let messages_to_process =
            (if include_older then
               (let older = (if int (length messages) > MAX_EVENTS
                             then slice_to (- MAX_EVENTS) messages else []);
                    recent = slice_from (- MAX_EVENTS) messages;
                    sampled_older = slice_from (- 20) (every_fifth older)
                in sampled_older @ recent)
             else slice_from (- MAX_EVENTS) messages)
      in join separator (map (cleaned_chunk lib MAX_BLOCK_LINES) messages_to_process))"

definition sanitize_enhanced ::
  "pylib \<Rightarrow> int \<Rightarrow> int \<Rightarrow> int \<Rightarrow> bool \<Rightarrow> msg list \<Rightarrow> string" where
  "sanitize_enhanced lib MAX_EVENTS MAX_LINES_TOTAL MAX_BLOCK_LINES include_older messages =
     line_cap MAX_LINES_TOTAL
       (all_text_enhanced lib MAX_EVENTS MAX_BLOCK_LINES include_older messages)"

subsection \<open>Saving a JSON file\<close>

text \<open>
  A path is seen as \<open>pathlib\<close> sees it in \<open>with_suffix\<close>: directory, stem and suffix.
  The file system maps a path to the content of the file there.  A save is a sequence
  of steps, each atomic for a reader: \<open>open(path, 'w')\<close> creates or empties the file,
  a write appends to it, \<open>replace\<close> renames one file over another.
\<close>

record path =
  p_dir :: string
  p_stem :: string
  p_suffix :: string

type_synonym fs = "path \<Rightarrow> string option"

datatype fs_op = Truncate path | Append path string | Replace path path

fun apply_op :: "fs_op \<Rightarrow> fs \<Rightarrow> fs" where
  "apply_op (Truncate p) f = f(p \<mapsto> [])"
| "apply_op (Append p s) f = f(p \<mapsto> get_str (f p) @ s)"
| "apply_op (Replace a b) f = (f(b := f a))(a := None)"

text \<open>The file system before the first step and after each step.\<close>

fun states :: "fs_op list \<Rightarrow> fs \<Rightarrow> fs list" where
  "states [] f = [f]"
| "states (x # xs) f = f # states xs (apply_op x f)"

definition with_suffix :: "path \<Rightarrow> string \<Rightarrow> path" where
  "with_suffix p s = p\<lparr>p_suffix := s\<rparr>"

text \<open>
  \<open>save_json\<close> of sidekick-review-worker.py: \<open>write_text\<close> on the \<open>.tmp\<close> sibling, then
  \<open>replace\<close>.  The serialised text reaches the file in one or more writes.
\<close>

definition save_json :: "path \<Rightarrow> string list \<Rightarrow> fs_op list" where
  "save_json p chunks =
     (let tmp = with_suffix p ''.tmp''
      in Truncate tmp # map (Append tmp) chunks @ [Replace tmp p])"

text \<open>
  \<open>save_json\<close> of sidekick-review-worker-enhanced.py and sidekick-memory-advanced.py:
  \<open>open(path, 'w')\<close> and \<open>json.dump\<close> into it.
\<close>

definition save_json_enhanced :: "path \<Rightarrow> string list \<Rightarrow> fs_op list" where
  "save_json_enhanced p chunks = Truncate p # map (Append p) chunks"

subsection \<open>The verdict and the nudge gate of sidekick-review-worker.py\<close>

text \<open>
  The reply of the reasoning service once parsed, with the keys the workers read.
  \<open>should_intervene\<close> is its truth value; a missing key is \<open>None\<close>;
  \<open>feature_recommendations\<close> is seen through its \<open>rollback\<close> list.
\<close>

record verdict =
  v_should_intervene :: bool
  v_score :: "real option"
  v_nudge_markdown :: "string option"
  v_commands :: "string list"
  v_reason :: "string option"
  v_memory_update :: "string option"
  v_key_decisions :: "string list"
  v_memory_insights :: "string option"
  v_rollback :: "string list option"

text \<open>Entries of \<open>key_decisions\<close>: from the transcript, or from the verdict.\<close>

datatype key_decision = KeyEvents string "string list" string | KeyDecision real string

text \<open>\<open>memory.json\<close> of the review worker and of the enhanced review worker.\<close>

record memory =
  last_timestamp :: "string option"
  long_term_summary :: "string option"
  last_nudge_hash :: "string option"
  key_decisions :: "key_decision list"
  session_count :: "int option"

definition get_score :: "verdict \<Rightarrow> real" where
  "get_score out = (case v_score out of None \<Rightarrow> 0 | Some x \<Rightarrow> x)"

text \<open>
  \<open>main\<close> of sidekick-review-worker.py from the parsed verdict on (the worker returns
  before it calls the service when there are no new messages).  \<open>sha256\<close> is
  \<open>hashlib.sha256(...).hexdigest()\<close>, \<open>now\<close> the clock.  The result is the memory file
  and the pending file left on disk.
\<close>

definition review_main ::
  "(string \<Rightarrow> string) \<Rightarrow> real \<Rightarrow> int \<Rightarrow> real \<Rightarrow> verdict \<Rightarrow> msg list \<Rightarrow> memory \<Rightarrow> pending_file
     \<Rightarrow> memory \<times> pending_file" where
  "review_main sha256 THRESHOLD NUDGE_TTL nw out msgs mem pend =
     (if msgs = [] then (mem, pend)
      else
        (let should = v_should_intervene out;
             scr = get_score out;
             nudge = strip (get_str (v_nudge_markdown out));
             cmds = v_commands out;
             memup = strip (get_str (v_memory_update out));
             nudge_hash = (if nudge \<noteq> [] then sha256 nudge else []);
             lt = get_str (long_term_summary mem);
             mem1 = (if memup \<noteq> []
                     then mem\<lparr>long_term_summary := Some (take 4000 (strip (lt @ NL @ memup)))\<rparr>
                     else mem);
             last_ts = (if timestamp (last msgs) \<noteq> [] then Some (timestamp (last msgs))
                        else last_timestamp mem1);
             mem2 = mem1\<lparr>last_timestamp := last_ts\<rparr>
         in if should \<and> scr \<ge> THRESHOLD \<and> nudge \<noteq> [] \<and> Some nudge_hash \<noteq> last_nudge_hash mem2
            then (mem2\<lparr>last_nudge_hash := Some nudge_hash\<rparr>,
                  Pending \<lparr>created_at = Aware nw, ttl_seconds = Some NUDGE_TTL,
                    nudge_markdown = Some nudge, commands = cmds, score = scr,
                    reason = Some (get_str (v_reason out))\<rparr>)
            else (mem2, pend)))"

text \<open>Whether a pass wrote a pending record: the gate's condition.\<close>

definition gate_open :: "(string \<Rightarrow> string) \<Rightarrow> real \<Rightarrow> verdict \<Rightarrow> memory \<Rightarrow> bool" where
  "gate_open sha256 THRESHOLD out mem =
     (let nudge = strip (get_str (v_nudge_markdown out))
      in v_should_intervene out \<and> get_score out \<ge> THRESHOLD \<and> nudge \<noteq> []
         \<and> Some (sha256 nudge) \<noteq> last_nudge_hash mem)"

text \<open>
  Successive passes of the review worker: each pass has its verdict, its new messages
  and its clock, and starts from the memory the pass before left.  The list holds the
  record each pass wrote, \<open>None\<close> for a pass that wrote none.
\<close>

fun review_passes ::
  "(string \<Rightarrow> string) \<Rightarrow> real \<Rightarrow> int \<Rightarrow> memory \<Rightarrow> (real \<times> verdict \<times> msg list) list
     \<Rightarrow> pending option list" where
  "review_passes sha256 THRESHOLD NUDGE_TTL mem [] = []"
| "review_passes sha256 THRESHOLD NUDGE_TTL mem ((nw, out, msgs) # ps) =
     (case review_main sha256 THRESHOLD NUDGE_TTL nw out msgs mem Absent of
        (mem', Pending d) \<Rightarrow> Some d # review_passes sha256 THRESHOLD NUDGE_TTL mem' ps
      | (mem', _) \<Rightarrow> None # review_passes sha256 THRESHOLD NUDGE_TTL mem' ps)"

subsection \<open>sidekick-memory-advanced.py: the memory record and its bounded lists\<close>

text \<open>
  The entries of the four feature-lifecycle lists, of \<open>technical_decisions\<close> and of
  \<open>ai_insights\<close>, each with the keys the worker writes.
\<close>

datatype feature =
    Started string string string int
  | Removed string string string
  | Struggling string int int string
  | RollbackAdvice string int

datatype decision = Decision string string int

datatype insight = Insight real string int

record feature_lifecycle =
  active_features :: "feature list"
  completed_features :: "feature list"
  struggling_features :: "feature list"
  removed_features :: "feature list"

text \<open>An element of \<open>feature_changes\<close>, as \<open>read_messages_since\<close> of this worker builds it.\<close>

record change =
  ch_type :: string
  ch_file :: string
  ch_timestamp :: string

text \<open>
  \<open>memory.json\<close> of this worker, with the keys its bounded lists depend on.
  \<open>feature_lifecycle\<close> is \<open>None\<close> when the key is missing or holds the empty
  dictionary; the summaries, contexts, error counters and recommendations of the record
  are not lists with a cap and are left out.
\<close>

record adv_memory =
  am_last_timestamp :: "string option"
  sessions :: "int option"
  feature_lifecycle :: "feature_lifecycle option"
  technical_decisions :: "decision list"
  ai_insights :: "insight list"

text \<open>\<open>kw in text\<close> for strings.\<close>

fun starts_with :: "string \<Rightarrow> string \<Rightarrow> bool" where
  "starts_with [] s = True"
| "starts_with (k # ks) [] = False"
| "starts_with (k # ks) (c # cs) = (k = c \<and> starts_with ks cs)"

fun contains :: "string \<Rightarrow> string \<Rightarrow> bool" where
  "contains kw [] = (kw = [])"
| "contains kw (c # cs) = (starts_with kw (c # cs) \<or> contains kw cs)"

text \<open>\<open>edit_counts[file] = edit_counts.get(file, 0) + 1\<close> on a dictionary that keeps
  the order of insertion.\<close>

fun bump :: "string \<Rightarrow> (string \<times> int) list \<Rightarrow> (string \<times> int) list" where
  "bump k [] = [(k, 1)]"
| "bump k ((k', n) # kvs) = (if k = k' then (k', n + 1) # kvs else (k', n) # bump k kvs)"

text \<open>The loops of \<open>build_rich_memory\<close> that feed the lists.  \<open>file_of\<close> is the
  \<open>re.search\<close> for a file name in the text of a message, \<open>lower\<close> is \<open>str.lower\<close>.\<close>

fun process_changes :: "feature_lifecycle \<Rightarrow> change list \<Rightarrow> feature_lifecycle" where
  "process_changes fl [] = fl"
| "process_changes fl (c # cs) =
     (let feature_id = ch_file c @ ''_'' @ take 10 (ch_timestamp c)
      in if ch_type c = ''addition'' then
           process_changes
             (fl\<lparr>active_features :=
                   active_features fl @ [Started feature_id (ch_file c) (ch_timestamp c) 1]\<rparr>) cs
         else if ch_type c = ''removal'' then
           process_changes
             (fl\<lparr>removed_features :=
                   removed_features fl @ [Removed feature_id (ch_file c) (ch_timestamp c)]\<rparr>) cs
         else process_changes fl cs)"

fun count_tools ::
  "(string \<Rightarrow> string option) \<Rightarrow> msg \<Rightarrow> (string \<times> int) list \<Rightarrow> string list \<Rightarrow> (string \<times> int) list" where
  "count_tools file_of m edit_counts [] = edit_counts"
| "count_tools file_of m edit_counts (tool # ts) =
     (if tool \<in> {''Edit'', ''MultiEdit''} then
        (case file_of (msg_text m) of
           Some f \<Rightarrow> count_tools file_of m (bump f edit_counts) ts
         | None \<Rightarrow> count_tools file_of m edit_counts ts)
      else count_tools file_of m edit_counts ts)"

fun count_edits ::
  "(string \<Rightarrow> string option) \<Rightarrow> (string \<times> int) list \<Rightarrow> msg list \<Rightarrow> (string \<times> int) list" where
  "count_edits file_of edit_counts [] = edit_counts"
| "count_edits file_of edit_counts (m # ms) =
     count_edits file_of (count_tools file_of m edit_counts (tools m)) ms"

fun flag_struggling :: "int \<Rightarrow> feature list \<Rightarrow> (string \<times> int) list \<Rightarrow> feature list" where
  "flag_struggling sess fs [] = fs"
| "flag_struggling sess fs ((file, cnt) # kvs) =
     (if cnt > 5 then
        flag_struggling sess
          (fs @ [Struggling file cnt sess
                   (''Consider reverting changes to '' @ file @ '' and trying a different approach'')])
          kvs
      else flag_struggling sess fs kvs)"

fun extract_decisions ::
  "(string \<Rightarrow> string) \<Rightarrow> int \<Rightarrow> decision list \<Rightarrow> msg list \<Rightarrow> decision list" where
  "extract_decisions lower sess ds [] = ds"
| "extract_decisions lower sess ds (m # ms) =
     (let txt = lower (msg_text m)
      in if list_ex (\<lambda>keyword. contains keyword txt)
              [''decided'', ''chose'', ''using'', ''switched to'', ''migrated'']
            \<and> length (msg_text m) < 300
         then extract_decisions lower sess
                (ds @ [Decision (take 200 (msg_text m)) (timestamp m) sess]) ms
         else extract_decisions lower sess ds ms)"

text \<open>\<open>memory["feature_lifecycle"]\<close>, or the four empty lists an absent one is set to.\<close>

definition get_lifecycle :: "adv_memory \<Rightarrow> feature_lifecycle" where
  "get_lifecycle mem =
     (case feature_lifecycle mem of
        None \<Rightarrow> \<lparr>active_features = [], completed_features = [],
                  struggling_features = [], removed_features = []\<rparr>
      | Some fl \<Rightarrow> fl)"

text \<open>\<open>build_rich_memory\<close>, on the keys kept: the session counter, the feature
  lifecycle and the technical decisions.\<close>

definition build_rich_memory ::
  "(string \<Rightarrow> string) \<Rightarrow> (string \<Rightarrow> string option) \<Rightarrow> adv_memory \<Rightarrow> msg list \<Rightarrow> change list
     \<Rightarrow> adv_memory" where
  "build_rich_memory lower file_of mem new_messages feature_changes =
     (let sess = (case sessions mem of None \<Rightarrow> 0 | Some n \<Rightarrow> n) + 1;
          fl0 = (case feature_lifecycle mem of
                   None \<Rightarrow> \<lparr>active_features = [], completed_features = [],
                             struggling_features = [], removed_features = []\<rparr>
                 | Some fl \<Rightarrow> fl);
          fl1 = process_changes fl0 feature_changes;
          edit_counts = count_edits file_of [] new_messages;
          fl2 = fl1\<lparr>struggling_features :=
                      flag_struggling sess (struggling_features fl1) edit_counts\<rparr>;
          fl3 = \<lparr>active_features = slice_from (- 20) (active_features fl2),
                 completed_features = slice_from (- 20) (completed_features fl2),
                 struggling_features = slice_from (- 20) (struggling_features fl2),
                 removed_features = slice_from (- 20) (removed_features fl2)\<rparr>;
          tds = slice_from (- 30)
                  (extract_decisions lower sess (technical_decisions mem) new_messages)
      in mem\<lparr>sessions := Some sess, feature_lifecycle := Some fl3, technical_decisions := tds\<rparr>)"

text \<open>
  \<open>main\<close> of this worker from the parsed verdict on, applied to the memory that
  \<open>build_rich_memory\<close> returned: the insight, the rollback advice, the watermark, the
  save, and the gate.  The keys \<open>context\<close> and \<open>memory_based\<close> of the pending record,
  which no reader uses, are left out.
\<close>

definition advanced_finish ::
  "real \<Rightarrow> int \<Rightarrow> real \<Rightarrow> verdict \<Rightarrow> msg list \<Rightarrow> adv_memory \<Rightarrow> pending_file
     \<Rightarrow> adv_memory \<times> pending_file" where
  "advanced_finish THRESHOLD NUDGE_TTL nw result msgs mem pend =
     (let sess = (case sessions mem of None \<Rightarrow> 0 | Some n \<Rightarrow> n);
          mem1 = (if get_str (v_memory_insights result) \<noteq> [] then
                    mem\<lparr>ai_insights :=
                          slice_from (- 20)
                            (ai_insights mem
                               @ [Insight nw (get_str (v_memory_insights result)) sess])\<rparr>
                  else mem);
          mem2 = (case (v_rollback result, feature_lifecycle mem1) of
                    (Some rb, Some fl) \<Rightarrow>
                      mem1\<lparr>feature_lifecycle :=
                             Some (fl\<lparr>struggling_features :=
                                     struggling_features fl
                                       @ map (\<lambda>feature. RollbackAdvice feature sess) rb\<rparr>)\<rparr>
                  | _ \<Rightarrow> mem1);
          mem3 = mem2\<lparr>am_last_timestamp :=
                        (if msgs \<noteq> [] then Some (timestamp (last msgs))
                         else am_last_timestamp mem2)\<rparr>
      in if v_should_intervene result \<and> get_score result \<ge> THRESHOLD then
           (mem3,
            Pending \<lparr>created_at = Aware nw, ttl_seconds = Some NUDGE_TTL,
              nudge_markdown = Some (get_str (v_nudge_markdown result)),
              commands = v_commands result, score = get_score result,
              reason = Some (get_str (v_reason result))\<rparr>)
         else (mem3, pend))"

text \<open>One pass of this worker on new messages: the merge, then the rest of \<open>main\<close>.\<close>

definition advanced_pass ::
  "(string \<Rightarrow> string) \<Rightarrow> (string \<Rightarrow> string option) \<Rightarrow> real \<Rightarrow> int \<Rightarrow> real \<Rightarrow> verdict
     \<Rightarrow> msg list \<Rightarrow> change list \<Rightarrow> adv_memory \<Rightarrow> pending_file \<Rightarrow> adv_memory \<times> pending_file" where
  "advanced_pass lower file_of THRESHOLD NUDGE_TTL nw result msgs feature_changes mem pend =
     advanced_finish THRESHOLD NUDGE_TTL nw result msgs
       (build_rich_memory lower file_of mem msgs feature_changes) pend"

text \<open>
  \<open>key_decisions\<close> in \<open>main\<close> of sidekick-review-worker-enhanced.py: the decisions found
  in the transcript are appended and the list cut, then the decisions of the verdict
  are appended and the list cut again, before the memory is saved.
\<close>

definition enhanced_key_decisions ::
  "real \<Rightarrow> key_decision list \<Rightarrow> key_decision list \<Rightarrow> string list \<Rightarrow> key_decision list" where
  "enhanced_key_decisions nw old new_key_decisions key_decs =
     slice_from (- 50)
       (slice_from (- 50) (old @ new_key_decisions) @ map (KeyDecision nw) key_decs)"

subsection \<open>sidekick-memory-advanced.py: the transcript cursor\<close>

text \<open>
  The loop over a list content in this worker.  It also collects the feature changes: a
  \<open>Write\<close>, \<open>Edit\<close> or \<open>MultiEdit\<close> is classified by the text part before it,
  \<open>text_parts[-1]\<close>, which raises \<open>IndexError\<close> when no text part came before.
\<close>

fun flatten_adv ::
  "(string \<Rightarrow> string) \<Rightarrow> string \<Rightarrow> string list \<Rightarrow> string list \<Rightarrow> change list \<Rightarrow> segment list
     \<Rightarrow> py_error + string list \<times> string list \<times> change list" where
  "flatten_adv lower ts text_parts tls fcs [] = Inr (text_parts, tls, fcs)"
| "flatten_adv lower ts text_parts tls fcs (SText t # cs) =
     flatten_adv lower ts (text_parts @ [get_str t]) tls fcs cs"
| "flatten_adv lower ts text_parts tls fcs (SToolUse n snip file_path # cs) =
     (let name = get_str n
      in if name \<in> {''Write'', ''Edit'', ''MultiEdit''} then
           (if text_parts = [] then Inl IndexError
            else
              (let before = lower (last text_parts);
                   fcs' =
                     (if contains ''add'' before \<or> contains ''implement'' before then
                        fcs @ [\<lparr>ch_type = ''addition'', ch_file = get_str file_path,
                                 ch_timestamp = ts\<rparr>]
                      else if contains ''remove'' before \<or> contains ''delete'' before then
                        fcs @ [\<lparr>ch_type = ''removal'', ch_file = get_str file_path,
                                 ch_timestamp = ts\<rparr>]
                      else fcs)
               in flatten_adv lower ts
                    (text_parts @ [''['' @ name @ '': ''
                       @ (case file_path of None \<Rightarrow> ''unknown'' | Some p \<Rightarrow> p) @ '']''])
                    (tls @ [name]) fcs' cs))
         else flatten_adv lower ts (text_parts @ [''['' @ name @ '']'']) (tls @ [name]) fcs cs)"
| "flatten_adv lower ts text_parts tls fcs (SToolResult out cnt # cs) =
     (let out' = take 200 (get_str cnt)
      in if contains ''error'' (lower out') then
           flatten_adv lower ts (text_parts @ [''[ERROR: '' @ take 100 out' @ '']'']) tls fcs cs
         else flatten_adv lower ts text_parts tls fcs cs)"
| "flatten_adv lower ts text_parts tls fcs (SOther # cs) = flatten_adv lower ts text_parts tls fcs cs"

text \<open>The body of the loop after the watermark test: the message of an entry, if any,
  and the feature changes found in it; or the exception.\<close>

definition entry_msg_adv :: "(string \<Rightarrow> string) \<Rightarrow> entry \<Rightarrow> py_error + msg option \<times> change list" where
  "entry_msg_adv lower e =
     (case e_message e of
        None \<Rightarrow> Inr (None, [])
      | Some m \<Rightarrow>
          if e_type e \<in> {Some ''user'', Some ''assistant''} then
            (let rl = (case msg_role m of None \<Rightarrow> get_str (e_type e) | Some r \<Rightarrow> r);
                 cnt = (case msg_content m of None \<Rightarrow> CStr [] | Some c \<Rightarrow> c);
                 ts = get_str (e_timestamp e)
             in case (case cnt of
                        CList cs \<Rightarrow> flatten_adv lower ts [] [] [] cs
                      | CStr s \<Rightarrow> Inr ([s], [], [])
                      | COther \<Rightarrow> Inr ([], [], [])) of
                  Inl err \<Rightarrow> Inl err
                | Inr (text_parts, tls, fcs) \<Rightarrow>
                    (let txt = strip (join NL text_parts)
                     in Inr (if txt \<noteq> [] then
                               Some \<lparr>role = rl, msg_text = txt, timestamp = ts, tools = tls\<rparr>
                             else None,
                             fcs)))
          else Inr (None, []))"

fun read_loop_adv ::
  "(string \<Rightarrow> string) \<Rightarrow> string option \<Rightarrow> msg list \<Rightarrow> change list \<Rightarrow> line list
     \<Rightarrow> py_error + msg list \<times> change list" where
  "read_loop_adv lower last_ts msgs fcs [] = Inr (msgs, fcs)"
| "read_loop_adv lower last_ts msgs fcs (Malformed # ls) = read_loop_adv lower last_ts msgs fcs ls"
| "read_loop_adv lower last_ts msgs fcs (Entry e # ls) =
     (if skipped last_ts (get_str (e_timestamp e)) then read_loop_adv lower last_ts msgs fcs ls
      else (case entry_msg_adv lower e of
              Inl err \<Rightarrow> Inl err
            | Inr (None, fc) \<Rightarrow> read_loop_adv lower last_ts msgs (fcs @ fc) ls
            | Inr (Some m, fc) \<Rightarrow> read_loop_adv lower last_ts (msgs @ [m]) (fcs @ fc) ls))"

definition read_messages_since_adv ::
  "(string \<Rightarrow> string) \<Rightarrow> line list option \<Rightarrow> string option \<Rightarrow> py_error + msg list \<times> change list" where
  "read_messages_since_adv lower transcript last_ts =
     (case transcript of None \<Rightarrow> Inr ([], []) | Some ls \<Rightarrow> read_loop_adv lower last_ts [] [] ls)"

text \<open>The events of a transcript for this worker: the entries that yield a message.\<close>

definition events_adv :: "(string \<Rightarrow> string) \<Rightarrow> line list \<Rightarrow> msg list" where
  "events_adv lower ls =
     List.map_filter
       (\<lambda>l. case l of
               Malformed \<Rightarrow> None
             | Entry e \<Rightarrow> (case entry_msg_adv lower e of Inl _ \<Rightarrow> None | Inr (mo, _) \<Rightarrow> mo))
       ls"

subsection \<open>Example inputs\<close>

text \<open>
  The library functions on ASCII texts that hold no identifier pair, no colour escape
  and no fenced block: \<open>upper\<close> maps the lower-case letters, the substitutions find
  nothing to replace.
\<close>

definition ascii_upper :: "string \<Rightarrow> string" where
  "ascii_upper s =
     map (\<lambda>c. if CHR ''a'' \<le> c \<and> c \<le> CHR ''z'' then char_of (of_char c - (32::nat)) else c) s"

definition no_match_lib :: pylib where
  "no_match_lib =
     \<lparr>upper = ascii_upper, sub_ids = (\<lambda>s. s), sub_ansi = (\<lambda>s. s), sub_blocks = (\<lambda>f s. s)\<rparr>"

definition three_line_msg :: msg where
  "three_line_msg =
     \<lparr>role = ''user'', msg_text = ''a'' @ NL @ ''b'' @ NL @ ''c'', timestamp = ''t1'', tools = []\<rparr>"

definition memory_json :: path where
  "memory_json = \<lparr>p_dir = ''~/.claude/sidekick/0123456789ab'', p_stem = ''memory'', p_suffix = ''.json''\<rparr>"

definition short_msg :: msg where
  "short_msg = \<lparr>role = ''user'', msg_text = ''hi'', timestamp = ''t1'', tools = []\<rparr>"

definition intervene :: "string option \<Rightarrow> verdict" where
  "intervene body =
     \<lparr>v_should_intervene = True, v_score = Some 0.9, v_nudge_markdown = body,
      v_commands = [], v_reason = Some ''why'', v_memory_update = None,
      v_key_decisions = [], v_memory_insights = None, v_rollback = None\<rparr>"

definition rollback_verdict :: verdict where
  "rollback_verdict =
     \<lparr>v_should_intervene = False, v_score = None, v_nudge_markdown = None,
      v_commands = [], v_reason = None, v_memory_update = None,
      v_key_decisions = [], v_memory_insights = None, v_rollback = Some [''app.py'']\<rparr>"

definition full_memory :: adv_memory where
  "full_memory =
     \<lparr>am_last_timestamp = None, sessions = Some 3,
      feature_lifecycle =
        Some \<lparr>active_features = [], completed_features = [],
              struggling_features = replicate 20 (Struggling ''app.py'' 6 1 ''revert''),
              removed_features = []\<rparr>,
      technical_decisions = [], ai_insights = []\<rparr>"

text \<open>An entry with a plain text content, and the message the readers make of it.\<close>

definition plain_entry :: "string option \<Rightarrow> string \<Rightarrow> string \<Rightarrow> entry" where
  "plain_entry ts tp txt =
     \<lparr>e_timestamp = ts, e_type = Some tp,
      e_message = Some \<lparr>msg_role = None, msg_content = Some (CStr txt)\<rparr>\<rparr>"

definition plain_msg :: "string \<Rightarrow> string \<Rightarrow> string \<Rightarrow> msg" where
  "plain_msg ts tp txt = \<lparr>role = tp, msg_text = txt, timestamp = ts, tools = []\<rparr>"

definition two_events :: "line list" where
  "two_events =
     [Entry (plain_entry (Some ''01'') ''user'' ''hi''), Malformed,
      Entry (plain_entry (Some ''02'') ''assistant'' ''ok'')]"

text \<open>An event at clock \<open>t\<close> with the worker installed and spawned, and one with no
  worker script installed.\<close>

definition spawning_at :: "real \<Rightarrow> hook_env" where
  "spawning_at t = \<lparr>now = t, worker_exists = True, popen_ok = True\<rparr>"

definition no_worker_at :: "real \<Rightarrow> hook_env" where
  "no_worker_at t = \<lparr>now = t, worker_exists = False, popen_ok = True\<rparr>"

text \<open>A pending record created at clock 990 with a TTL of 900 seconds.\<close>

definition nudge_record :: "string \<Rightarrow> pending" where
  "nudge_record body =
     \<lparr>created_at = Aware 990, ttl_seconds = Some 900, nudge_markdown = Some body,
      commands = [], score = 1, reason = Some ''why''\<rparr>"

section \<open>Theorems\<close>

subsection \<open>The trigger gate\<close>

lemma counter_main_count:
  "get_count (fst (counter_main I C e s)) = get_count s + 1"
  by (simp add: counter_main_def Let_def get_count_def)

lemma counter_main_fired:
  "I \<noteq> 0 \<Longrightarrow>
   fired (snd (counter_main I C e s)) =
     ((get_count s + 1) mod I = 0 \<and> now e - get_last_run s \<ge> of_int C)"
  by (simp add: counter_main_def Let_def fired_def)

lemma counter_main_last_run:
  "get_last_run (fst (counter_main I C e s)) =
     (if spawned_ok then now e else get_last_run s)"
  if "spawned_ok = (case snd (counter_main I C e s) of Inl _ \<Rightarrow> False | Inr l \<Rightarrow> spawned l)"
  using that by (simp add: counter_main_def Let_def get_last_run_def)

lemma run_events_append:
  "run_events I C s (es @ es') =
     (let (s1, rs) = run_events I C s es; (s2, rs') = run_events I C s1 es'
      in (s2, rs @ rs'))"
  by (induction es arbitrary: s) (simp_all add: Let_def split: prod.splits)

text \<open>No event of a stretch that crosses no multiple of the interval fires, and such a
  stretch leaves \<open>last_run\<close> alone.\<close>

lemma run_events_quiet:
  assumes "I \<noteq> 0"
    and "\<forall>k. 0 < k \<and> k \<le> int (length es) \<longrightarrow> (get_count s + k) mod I \<noteq> 0"
  shows "map fired (snd (run_events I C s es)) = replicate (length es) False
       \<and> get_count (fst (run_events I C s es)) = get_count s + int (length es)
       \<and> get_last_run (fst (run_events I C s es)) = get_last_run s"
  using assms
proof (induction es arbitrary: s)
  case Nil
  then show ?case by simp
next
  case (Cons e es)
  let ?s1 = "fst (counter_main I C e s)"
  have c1: "get_count ?s1 = get_count s + 1"
    by (rule counter_main_count)
  have nf: "(get_count s + 1) mod I \<noteq> 0"
    using Cons.prems(2) [rule_format, of 1] by simp
  have f1: "\<not> fired (snd (counter_main I C e s))"
    using nf Cons.prems(1) by (simp add: counter_main_fired)
  have l1: "get_last_run ?s1 = get_last_run s"
    using nf Cons.prems(1) by (simp add: counter_main_def Let_def get_last_run_def)
  have "\<forall>k. 0 < k \<and> k \<le> int (length es) \<longrightarrow> (get_count ?s1 + k) mod I \<noteq> 0"
  proof (intro allI impI)
    fix k :: int
    assume "0 < k \<and> k \<le> int (length es)"
    then have "0 < k + 1 \<and> k + 1 \<le> int (length (e # es))" by simp
    then have "(get_count s + (k + 1)) mod I \<noteq> 0"
      using Cons.prems(2) [rule_format, of "k + 1"] by simp
    then show "(get_count ?s1 + k) mod I \<noteq> 0"
      by (simp add: c1 ac_simps)
  qed
  from Cons.IH [OF Cons.prems(1) this] c1 l1 f1
  show ?case
    by (simp add: Let_def case_prod_beta)
qed

lemma run_events_snd_append:
  "snd (run_events I C s (es @ es')) =
     snd (run_events I C s es) @ snd (run_events I C (fst (run_events I C s es)) es')"
  by (simp add: run_events_append Let_def case_prod_beta)

lemma run_events_fst_append:
  "fst (run_events I C s (es @ es')) =
     fst (run_events I C (fst (run_events I C s es)) es')"
  by (simp add: run_events_append Let_def case_prod_beta)

lemma run_events_Cons:
  "run_events I C s (e # es) =
     (fst (run_events I C (fst (counter_main I C e s)) es),
      snd (counter_main I C e s) # snd (run_events I C (fst (counter_main I C e s)) es))"
  by (simp add: Let_def case_prod_beta)

text \<open>While the clock stays inside the cooldown window of the saved \<open>last_run\<close>, no event
  fires, whatever the counter is, and \<open>last_run\<close> stays.\<close>

lemma run_events_cooling:
  assumes "\<forall>e \<in> set es. now e - get_last_run s < of_int C"
  shows "(\<forall>r \<in> set (snd (run_events I C s es)). \<not> fired r)
       \<and> get_last_run (fst (run_events I C s es)) = get_last_run s"
  using assms
proof (induction es arbitrary: s)
  case Nil
  then show ?case by simp
next
  case (Cons e es)
  let ?s1 = "fst (counter_main I C e s)"
  have cool: "now e - get_last_run s < of_int C"
    using Cons.prems by simp
  then have f1: "\<not> fired (snd (counter_main I C e s))"
    by (simp add: counter_main_def Let_def fired_def)
  have l1: "get_last_run ?s1 = get_last_run s"
    using cool by (simp add: counter_main_def Let_def get_last_run_def)
  have "\<forall>e' \<in> set es. now e' - get_last_run ?s1 < of_int C"
    using Cons.prems l1 by simp
  from Cons.IH [OF this] l1 f1 show ?case
    by (simp add: Let_def case_prod_beta)
qed

text \<open>
  C3, as amended.  Each run adds one to the saved counter and, for a non-zero interval,
  decides to launch exactly when the new counter is a multiple of the interval and the
  clock is at least \<open>COOLDOWN_S\<close> past the saved \<open>last_run\<close>.  With interval 10 and
  cooldown 120, from the fresh state and a clock that reads at least 120 (Unix time
  does), the first ten events launch once, on the tenth; and when that launch spawned the
  worker, so that \<open>last_run\<close> was saved, the twentieth event, still inside the cooldown
  window of the tenth, does not launch.
\<close>

theorem trigger_gate_interval_cooldown:
  assumes "I \<noteq> 0"
    and "length es = 9" and "length es' = 9"
    and "120 \<le> now e10"
    and "worker_exists e10 \<and> popen_ok e10"
    and "now e20 - now e10 < 120"
  shows "get_count (fst (counter_main I C e s)) = get_count s + 1
       \<and> fired (snd (counter_main I C e s)) =
           ((get_count s + 1) mod I = 0 \<and> now e - get_last_run s \<ge> of_int C)
       \<and> map fired (snd (run_events 10 120 fresh_state (es @ [e10] @ es' @ [e20]))) =
           replicate 9 False @ [True] @ replicate 10 False"
proof -
  let ?run = "run_events 10 120"
  let ?s9 = "fst (?run fresh_state es)"
  let ?s10 = "fst (counter_main 10 120 e10 ?s9)"
  let ?s19 = "fst (?run ?s10 es')"
  have c0: "get_count fresh_state = 0" and l0: "get_last_run fresh_state = 0"
    by (simp_all add: fresh_state_def get_count_def get_last_run_def)
  have "\<forall>k::int. 0 < k \<and> k \<le> int (length es) \<longrightarrow> (get_count fresh_state + k) mod 10 \<noteq> 0"
    using assms(2) c0 by auto
  from run_events_quiet [OF _ this, of 120]
  have q1: "map fired (snd (?run fresh_state es)) = replicate 9 False"
    and c9: "get_count ?s9 = 9" and l9: "get_last_run ?s9 = 0"
    using assms(2) c0 l0 by simp_all
  have f10: "fired (snd (counter_main 10 120 e10 ?s9))"
    using c9 l9 assms(4) by (simp add: counter_main_fired)
  have c10: "get_count ?s10 = 10"
    using c9 by (simp add: counter_main_count)
  have l10: "get_last_run ?s10 = now e10"
    using c9 l9 assms(4,5) by (simp add: counter_main_def Let_def get_last_run_def)
  have "\<forall>k::int. 0 < k \<and> k \<le> int (length es') \<longrightarrow> (get_count ?s10 + k) mod 10 \<noteq> 0"
    using assms(3) c10 by auto
  from run_events_quiet [OF _ this, of 120]
  have q2: "map fired (snd (?run ?s10 es')) = replicate 9 False"
    and c19: "get_count ?s19 = 19" and l19: "get_last_run ?s19 = now e10"
    using assms(3) c10 l10 by simp_all
  have f20: "\<not> fired (snd (counter_main 10 120 e20 ?s19))"
    using c19 l19 assms(6) by (simp add: counter_main_fired)
  have "map fired (snd (?run fresh_state (es @ [e10] @ es' @ [e20]))) =
          replicate 9 False @ [True] @ replicate 9 False @ [False]"
    using q1 f10 q2 f20
    by (simp add: run_events_snd_append run_events_fst_append run_events_Cons
        del: run_events.simps(2))
  also have "replicate 9 False @ [False] = replicate 10 False"
    by (simp add: replicate_append_same numeral_eq_Suc)
  finally show ?thesis
    using assms(1) by (simp add: counter_main_count counter_main_fired)
qed

theorem trigger_gate_interval_cooldown_witness:
  "(10::int) \<noteq> 0 \<and> length (replicate 9 (spawning_at 1000)) = 9
   \<and> 120 \<le> now (spawning_at 1000.5)
   \<and> worker_exists (spawning_at 1000.5) \<and> popen_ok (spawning_at 1000.5)
   \<and> now (spawning_at 1060) - now (spawning_at 1000.5) < 120
   \<and> get_count (fst (counter_main 10 120 (spawning_at 1000) fresh_state)) =
       get_count fresh_state + 1
   \<and> fired (snd (counter_main 10 120 (spawning_at 1000) fresh_state)) =
       ((get_count fresh_state + 1) mod 10 = 0
        \<and> now (spawning_at 1000) - get_last_run fresh_state \<ge> of_int 120)
   \<and> map fired (snd (run_events 10 120 fresh_state
         (replicate 9 (spawning_at 1000) @ [spawning_at 1000.5]
            @ replicate 9 (spawning_at 1001) @ [spawning_at 1060]))) =
       replicate 9 False @ [True] @ replicate 10 False"
  using trigger_gate_interval_cooldown [where I = 10 and C = 120
      and es = "replicate 9 (spawning_at 1000)" and es' = "replicate 9 (spawning_at 1001)"
      and ?e10.0 = "spawning_at 1000.5" and ?e20.0 = "spawning_at 1060"
      and e = "spawning_at 1000" and s = fresh_state]
  by (simp add: spawning_at_def)

text \<open>
  C3 as stated fails when the launch of the tenth event does not spawn the worker (here
  the worker script is not installed): \<open>last_run\<close> is then not saved, and the twentieth
  event, in the same second, decides to launch again.
\<close>

theorem trigger_gate_refires_at_20_counterexample:
  "map fired (snd (run_events 10 120 fresh_state (replicate 20 (no_worker_at 1000)))) =
     replicate 9 False @ [True] @ replicate 9 False @ [True]"
  by (simp add: numeral_eq_Suc counter_main_def fresh_state_def get_count_def
      get_last_run_def fired_def Let_def no_worker_at_def)

text \<open>
  C8, as amended.  When a run launches and the worker is spawned (the script exists and
  \<open>Popen\<close> returns), \<open>last_run = now\<close> is saved, right after the spawn; whatever becomes of
  the background pass, no later event whose clock is still inside the cooldown window
  launches again.  A run saves \<open>last_run\<close> in that case only: when it does not launch, or
  launches and the spawn does not happen, \<open>last_run\<close> stays as it was.
\<close>

theorem last_run_saved_after_spawn:
  assumes "counter_main I C e s = (s', Inr l)" and "spawned l"
    and "\<forall>e' \<in> set es. now e' - now e < of_int C"
  shows "last_run s' = Some (now e)
       \<and> (\<forall>r \<in> set (snd (run_events I C s' es)). \<not> fired r)
       \<and> last_run (fst (counter_main I C e2 s2)) =
           (if fired (snd (counter_main I C e2 s2)) \<and> worker_exists e2 \<and> popen_ok e2
            then Some (now e2) else last_run s2)"
proof -
  have lr: "last_run s' = Some (now e)"
    using assms(1,2) by (auto simp add: counter_main_def Let_def split: if_splits)
  then have "get_last_run s' = now e"
    by (simp add: get_last_run_def)
  with assms(3) have "\<forall>e' \<in> set es. now e' - get_last_run s' < of_int C"
    by simp
  from run_events_cooling [OF this] lr show ?thesis
    by (simp add: counter_main_def Let_def fired_def)
qed

theorem last_run_saved_after_spawn_witness:
  "counter_main 1 120 (spawning_at 1000) fresh_state =
     (\<lparr>count = Some 1, last_run = Some 1000\<rparr>, Inr \<lparr>should_launch = True, spawned = True\<rparr>)
   \<and> spawned \<lparr>should_launch = True, spawned = True\<rparr>
   \<and> now (spawning_at 1060) - now (spawning_at 1000) < of_int 120
   \<and> last_run \<lparr>count = Some 1, last_run = Some 1000\<rparr> = Some (now (spawning_at 1000))
   \<and> map fired (snd (run_events 1 120 \<lparr>count = Some 1, last_run = Some 1000\<rparr>
          [spawning_at 1060])) = [False]
   \<and> fired (snd (counter_main 1 120 (no_worker_at 1000) fresh_state))
   \<and> last_run (fst (counter_main 1 120 (no_worker_at 1000) fresh_state)) = None"
proof -
  have m: "counter_main 1 120 (spawning_at 1000) fresh_state =
     (\<lparr>count = Some 1, last_run = Some 1000\<rparr>, Inr \<lparr>should_launch = True, spawned = True\<rparr>)"
    by (simp add: counter_main_def fresh_state_def get_count_def get_last_run_def Let_def
        spawning_at_def)
  have w: "\<forall>e' \<in> set [spawning_at 1060]. now e' - now (spawning_at 1000) < of_int 120"
    by (simp add: spawning_at_def)
  have f: "fired (snd (counter_main 1 120 (no_worker_at 1000) fresh_state))"
    by (simp add: counter_main_def fresh_state_def get_count_def get_last_run_def Let_def
        no_worker_at_def fired_def)
  from last_run_saved_after_spawn [OF m _ w, where ?e2.0 = "no_worker_at 1000"
      and ?s2.0 = fresh_state] m f
  show ?thesis
    by (simp add: Let_def case_prod_beta spawning_at_def no_worker_at_def fresh_state_def)
qed

text \<open>
  C8 as stated fails when the spawn fails: \<open>last_run\<close> is saved after \<open>Popen\<close>, not before
  it.  With interval 1, the first event launches, \<open>Popen\<close> raises, nothing is saved, and
  the event one second later launches again.
\<close>

theorem failed_spawn_refires_counterexample:
  "counter_main 1 120 \<lparr>now = 1000, worker_exists = True, popen_ok = False\<rparr> fresh_state =
     (\<lparr>count = Some 1, last_run = None\<rparr>, Inr \<lparr>should_launch = True, spawned = False\<rparr>)
   \<and> counter_main 1 120 \<lparr>now = 1001, worker_exists = True, popen_ok = False\<rparr>
       \<lparr>count = Some 1, last_run = None\<rparr> =
     (\<lparr>count = Some 2, last_run = None\<rparr>, Inr \<lparr>should_launch = True, spawned = False\<rparr>)"
  by (simp add: counter_main_def fresh_state_def get_count_def get_last_run_def Let_def)

text \<open>
  C9: the code at a non-positive interval.  With \<open>INTERVAL = 0\<close> the run saves the
  incremented counter and then raises \<open>ZeroDivisionError\<close> at \<open>count % INTERVAL\<close>; with a
  negative interval it launches only at the multiples, not on every event.
\<close>

theorem zero_interval_raises:
  "counter_main 0 120 (spawning_at 1000) fresh_state =
     (\<lparr>count = Some 1, last_run = None\<rparr>, Inl ZeroDivisionError)
   \<and> map fired (snd (run_events (- 10) 120 fresh_state (replicate 10 (spawning_at 1000)))) =
       replicate 9 False @ [True]"
  by (simp add: numeral_eq_Suc counter_main_def fresh_state_def get_count_def
      get_last_run_def fired_def Let_def spawning_at_def)

subsection \<open>Delivery of the pending nudge\<close>

lemma nudge_main_Pending:
  "\<not> naive d \<Longrightarrow>
   nudge_main t0 t1 (Pending d) =
     (if stale t0 t1 d then (Absent, Inr (0, None))
      else if strip (get_str (nudge_markdown d)) \<noteq> [] then
        (Absent, Inr (1, Some (Shown (get_str (reason d)) (strip (get_str (nudge_markdown d))))))
      else (Pending d, Inr (0, None)))"
  by (simp add: nudge_main_def naive_def stale_def Let_def split: created.splits)

lemma nudge_main_no_file:
  "nudge_main t0 t1 Absent = (Absent, Inr (0, None))"
  "nudge_main t0 t1 Unparsable = (Unparsable, Inr (0, None))"
  by (simp_all add: nudge_main_def)

text \<open>A \<open>created_at\<close> without offset: the run raises before any \<open>unlink\<close>.\<close>

lemma nudge_main_naive:
  "naive d \<Longrightarrow> nudge_main t0 t1 (Pending d) = (Pending d, Inl TypeError)"
  by (simp add: nudge_main_def naive_def Let_def split: created.splits)

text \<open>
  C2, as amended.  For a pending record that parses and whose \<open>created_at\<close> is not a
  time without offset, one run deletes the record exactly when the record is stale or
  its body, stripped, is not empty; a record that is fresh and has a body is displayed
  (body and reason) and consumed, inside its TTL.  A fresh record with an empty body
  stays on disk and nothing is displayed; a file that is not JSON stays too.  In each
  of these cases the run after delivers nothing.
\<close>

theorem nudge_consumed_when_shown_or_stale:
  assumes "\<not> naive d"
  shows "fst (nudge_main t0 t1 (Pending d)) =
           (if stale t0 t1 d \<or> strip (get_str (nudge_markdown d)) \<noteq> [] then Absent
            else Pending d)
       \<and> delivered (snd (nudge_main t0 t1 (Pending d))) =
           (if \<not> stale t0 t1 d \<and> strip (get_str (nudge_markdown d)) \<noteq> [] then
              Some (Shown (get_str (reason d)) (strip (get_str (nudge_markdown d))))
            else None)
       \<and> delivered (snd (nudge_main t2 t3 (fst (nudge_main t0 t1 (Pending d))))) = None
       \<and> fst (nudge_main t0 t1 Unparsable) = Unparsable
       \<and> delivered (snd (nudge_main t2 t3 (fst (nudge_main t0 t1 Unparsable)))) = None
       \<and> delivered (snd (nudge_main t2 t3 (fst (nudge_main t0 t1 Absent)))) = None"
proof -
  have again: "delivered (snd (nudge_main t2 t3 (fst (nudge_main t0 t1 (Pending d))))) = None"
  proof (cases "stale t0 t1 d \<or> strip (get_str (nudge_markdown d)) \<noteq> []")
    case True
    then have "fst (nudge_main t0 t1 (Pending d)) = Absent"
      using assms by (auto simp add: nudge_main_Pending)
    then show ?thesis
      by (simp add: nudge_main_no_file delivered_def)
  next
    case False
    then have "fst (nudge_main t0 t1 (Pending d)) = Pending d"
      using assms by (simp add: nudge_main_Pending)
    moreover have "delivered (snd (nudge_main t2 t3 (Pending d))) = None"
      using False assms by (simp add: nudge_main_Pending [of d t2 t3] delivered_def)
    ultimately show ?thesis
      by simp
  qed
  show ?thesis
    using assms again
    by (simp add: nudge_main_Pending nudge_main_no_file delivered_def)
qed

theorem nudge_consumed_when_shown_or_stale_witness:
  "\<not> naive (nudge_record ''Run the tests'')
   \<and> \<not> stale 1000 1000 (nudge_record ''Run the tests'')
   \<and> nudge_main 1000 1000 (Pending (nudge_record ''Run the tests'')) =
       (Absent, Inr (1, Some (Shown ''why'' ''Run the tests'')))
   \<and> delivered (snd (nudge_main 1001 1001
         (fst (nudge_main 1000 1000 (Pending (nudge_record ''Run the tests'')))))) = None
   \<and> stale 2000 2000 (nudge_record ''Run the tests'')
   \<and> nudge_main 2000 2000 (Pending (nudge_record ''Run the tests'')) = (Absent, Inr (0, None))"
proof -
  have n: "\<not> naive (nudge_record ''Run the tests'')"
    by (simp add: naive_def nudge_record_def)
  have s: "strip (get_str (nudge_markdown (nudge_record ''Run the tests''))) = ''Run the tests''"
    by (simp add: nudge_record_def get_str_def strip_def py_isspace_def)
  have f: "\<not> stale 1000 1000 (nudge_record ''Run the tests'')"
    "stale 2000 2000 (nudge_record ''Run the tests'')"
    by (simp_all add: stale_def nudge_record_def)
  have r: "get_str (reason (nudge_record ''Run the tests'')) = ''why''"
    by (simp add: nudge_record_def get_str_def)
  from nudge_consumed_when_shown_or_stale [OF n, of 1000 1000 1001 1001]
       nudge_consumed_when_shown_or_stale [OF n, of 2000 2000 2001 2001]
  show ?thesis
    using n f by (simp add: nudge_main_Pending s r)
qed

text \<open>
  C2 as stated fails on a fresh record whose body is empty: the run prints nothing and
  leaves the record on disk.
\<close>

theorem fresh_empty_nudge_kept_counterexample:
  "nudge_main 1000 1000 (Pending (nudge_record [])) =
     (Pending (nudge_record []), Inr (0, None))"
  by (simp add: nudge_main_def Let_def strip_def get_str_def nudge_record_def)

subsection \<open>The transcript cursor\<close>

lemma entry_msg_timestamp:
  "entry_msg e = Some m \<Longrightarrow> timestamp m = get_str (e_timestamp e)"
  by (auto simp add: entry_msg_def Let_def split: option.splits if_splits prod.splits)

lemma newer_iff_not_skipped:
  "newer w m = (\<not> skipped w (timestamp m))"
  by (auto simp add: newer_def skipped_def get_str_def split: option.splits)

lemma events_Cons:
  "events (Malformed # ls) = events ls"
  "events (Entry e # ls) = (case entry_msg e of None \<Rightarrow> events ls | Some m \<Rightarrow> m # events ls)"
  by (simp_all add: events_def split: option.splits)

lemma read_loop_events_after:
  "read_loop w msgs ls = msgs @ events_after w ls"
proof (induction ls arbitrary: msgs)
  case Nil
  then show ?case by (simp add: events_after_def events_def)
next
  case (Cons l ls)
  show ?case
  proof (cases l)
    case Malformed
    then show ?thesis using Cons.IH by (simp add: events_after_def events_Cons)
  next
    case (Entry e)
    show ?thesis
    proof (cases "entry_msg e")
      case None
      then show ?thesis using Entry Cons.IH by (simp add: events_after_def events_Cons)
    next
      case (Some m)
      then have "timestamp m = get_str (e_timestamp e)"
        by (rule entry_msg_timestamp)
      then show ?thesis
        using Entry Some Cons.IH
        by (simp add: events_after_def events_Cons newer_iff_not_skipped)
    qed
  qed
qed

lemma read_messages_since_events_after:
  "read_messages_since (Some ls) w = events_after w ls"
  by (simp add: read_messages_since_def read_loop_events_after)

lemma last_filter_split:
  "filter P xs \<noteq> [] \<Longrightarrow> \<exists>A B. xs = A @ last (filter P xs) # B \<and> (\<forall>b \<in> set B. \<not> P b)"
proof (induction xs rule: rev_induct)
  case Nil
  then show ?case by simp
next
  case (snoc x xs)
  show ?case
  proof (cases "P x")
    case True
    then have "xs @ [x] = xs @ last (filter P (xs @ [x])) # []"
      by simp
    then show ?thesis by (metis empty_iff empty_set)
  next
    case False
    then have ne: "filter P xs \<noteq> []" and same: "filter P (xs @ [x]) = filter P xs"
      using snoc.prems by simp_all
    from snoc.IH [OF ne] obtain A B
      where "xs = A @ last (filter P xs) # B" and "\<forall>b \<in> set B. \<not> P b"
      by blast
    then have "xs @ [x] = A @ last (filter P (xs @ [x])) # (B @ [x])"
      and "\<forall>b \<in> set (B @ [x]). \<not> P b"
      using False same by simp_all
    then show ?thesis by blast
  qed
qed

text \<open>With timestamps in order, nothing carries a timestamp after the last one kept.\<close>

lemma nothing_after_last_kept:
  assumes ne: "filter (newer w) xs \<noteq> []"
    and ts: "timestamp (last (filter (newer w) xs)) \<noteq> []"
    and srt: "sorted (filter (\<lambda>t. t \<noteq> []) (map timestamp xs))"
    and m: "m \<in> set xs"
  shows "\<not> timestamp (last (filter (newer w) xs)) < timestamp m"
proof
  let ?mk = "last (filter (newer w) xs)"
  let ?ne = "\<lambda>t::string. t \<noteq> []"
  assume lt: "timestamp ?mk < timestamp m"
  then have mne: "timestamp m \<noteq> []"
    by auto
  from last_filter_split [OF ne]
  obtain A B where split: "xs = A @ ?mk # B" and B: "\<forall>b \<in> set B. \<not> newer w b"
    by blast
  have "?mk \<in> set (filter (newer w) xs)"
    using ne last_in_set by blast
  then have pk: "newer w ?mk"
    by simp
  have "filter ?ne (map timestamp xs) =
      filter ?ne (map timestamp A) @ timestamp ?mk # filter ?ne (map timestamp B)"
    using ts by (subst split) simp
  with srt
  have srt': "sorted (filter ?ne (map timestamp A) @ timestamp ?mk # filter ?ne (map timestamp B))"
    by simp
  from m split consider "m \<in> set A" | "m = ?mk" | "m \<in> set B"
    by (metis Un_iff set_ConsD set_append)
  then show False
  proof cases
    case 1
    then have "timestamp m \<in> set (filter ?ne (map timestamp A))"
      using mne by simp
    with srt' have "timestamp m \<le> timestamp ?mk"
      by (auto simp add: sorted_append)
    with lt show False by simp
  next
    case 2
    with lt show False by simp
  next
    case 3
    with B have "\<not> newer w m" by blast
    then obtain x where w: "w = Some x" and "x \<noteq> []" and le: "timestamp m \<le> x"
      by (auto simp add: newer_def split: option.splits)
    with pk ts have "x < timestamp ?mk"
      by (simp add: newer_def)
    with le lt show False by simp
  qed
qed

text \<open>Reading again from the last timestamp kept leaves what has no timestamp.\<close>

lemma reread_from_last_kept:
  assumes "filter (newer w) xs \<noteq> []"
    and "timestamp (last (filter (newer w) xs)) \<noteq> []"
    and "sorted (filter (\<lambda>t. t \<noteq> []) (map timestamp xs))"
  shows "filter (newer (Some (timestamp (last (filter (newer w) xs))))) xs =
           filter (\<lambda>m. timestamp m = []) (filter (newer w) xs)"
proof -
  let ?w' = "timestamp (last (filter (newer w) xs))"
  have "newer (Some ?w') m = (timestamp m = [] \<and> newer w m)" if "m \<in> set xs" for m
  proof -
    have "\<not> ?w' < timestamp m"
      using nothing_after_last_kept [OF assms that] .
    then show ?thesis
      using assms(2) by (auto simp add: newer_def split: option.splits)
  qed
  then have "filter (newer (Some ?w')) xs = filter (\<lambda>m. timestamp m = [] \<and> newer w m) xs"
    by (simp cong: filter_cong)
  then show ?thesis
    by (simp add: conj_commute)
qed

text \<open>The advanced worker's cursor: when it returns, it returns the events that pass
  the watermark test; it returns unless an entry it does not skip raises.\<close>

lemma entry_msg_adv_timestamp:
  "entry_msg_adv lower e = Inr (Some m, fc) \<Longrightarrow> timestamp m = get_str (e_timestamp e)"
  by (auto simp add: entry_msg_adv_def Let_def split: option.splits if_splits sum.splits)

lemma events_adv_Cons:
  "events_adv lower (Malformed # ls) = events_adv lower ls"
  "events_adv lower (Entry e # ls) =
     (case entry_msg_adv lower e of
        Inl _ \<Rightarrow> events_adv lower ls
      | Inr (None, _) \<Rightarrow> events_adv lower ls
      | Inr (Some m, _) \<Rightarrow> m # events_adv lower ls)"
  by (simp_all add: events_adv_def split: sum.splits option.splits)

lemma read_loop_adv_events:
  "read_loop_adv lower w msgs fcs ls = Inr (msgs', fcs') \<Longrightarrow>
   msgs' = msgs @ filter (newer w) (events_adv lower ls)"
proof (induction ls arbitrary: msgs fcs)
  case Nil
  then show ?case by (simp add: events_adv_def)
next
  case (Cons l ls)
  show ?case
  proof (cases l)
    case Malformed
    then show ?thesis using Cons by (simp add: events_adv_Cons)
  next
    case (Entry e)
    show ?thesis
    proof (cases "entry_msg_adv lower e")
      case (Inl err)
      then show ?thesis
        using Entry Cons by (simp add: events_adv_Cons split: if_splits)
    next
      case (Inr r)
      obtain mo fc where r: "r = (mo, fc)"
        by (cases r)
      show ?thesis
      proof (cases mo)
        case None
        then show ?thesis
          using Entry Inr r Cons by (simp add: events_adv_Cons split: if_splits)
      next
        case (Some m)
        then have tm: "timestamp m = get_str (e_timestamp e)"
          using Inr r by (simp add: entry_msg_adv_timestamp)
        show ?thesis
        proof (cases "skipped w (get_str (e_timestamp e))")
          case True
          then have "read_loop_adv lower w msgs fcs ls = Inr (msgs', fcs')"
            using Cons.prems Entry by simp
          from Cons.IH [OF this] show ?thesis
            using Entry Inr r Some tm True by (simp add: events_adv_Cons newer_iff_not_skipped)
        next
          case False
          then have "read_loop_adv lower w (msgs @ [m]) (fcs @ fc) ls = Inr (msgs', fcs')"
            using Cons.prems Entry Inr r Some by simp
          from Cons.IH [OF this] show ?thesis
            using Entry Inr r Some tm False by (simp add: events_adv_Cons newer_iff_not_skipped)
        qed
      qed
    qed
  qed
qed

lemma read_loop_adv_returns:
  "(\<forall>e. Entry e \<in> set ls \<longrightarrow> \<not> skipped w (get_str (e_timestamp e)) \<longrightarrow>
        \<not> isl (entry_msg_adv lower e)) \<Longrightarrow>
   \<exists>msgs' fcs'. read_loop_adv lower w msgs fcs ls = Inr (msgs', fcs')"
proof (induction ls arbitrary: msgs fcs)
  case Nil
  then show ?case by simp
next
  case (Cons l ls)
  then show ?case
    by (cases l) (auto split: sum.splits option.splits simp add: isl_def)
qed

lemma read_loop_adv_returned:
  "read_loop_adv lower w msgs fcs ls = Inr r \<Longrightarrow> Entry e \<in> set ls \<Longrightarrow>
   \<not> skipped w (get_str (e_timestamp e)) \<Longrightarrow> \<not> isl (entry_msg_adv lower e)"
proof (induction ls arbitrary: msgs fcs)
  case Nil
  then show ?case by simp
next
  case (Cons l ls)
  then show ?case
    by (cases l) (auto split: sum.splits option.splits if_splits simp add: isl_def)
qed

lemma skipped_later:
  "skipped w ts \<Longrightarrow> newer w m \<Longrightarrow> timestamp m \<noteq> [] \<Longrightarrow> skipped (Some (timestamp m)) ts"
  by (auto simp add: skipped_def newer_def get_str_def split: option.splits)

lemma reread_adv:
  assumes rd: "read_messages_since_adv lower (Some ls) w = Inr (msgs, fcs)"
    and ne: "msgs \<noteq> []" and ts: "timestamp (last msgs) \<noteq> []"
    and srt: "sorted (filter (\<lambda>t. t \<noteq> []) (map timestamp (events_adv lower ls)))"
  shows "\<exists>fcs2. read_messages_since_adv lower (Some ls) (Some (timestamp (last msgs))) =
           Inr (filter (\<lambda>m. timestamp m = []) msgs, fcs2)"
proof -
  let ?w' = "Some (timestamp (last msgs))"
  have loop: "read_loop_adv lower w [] [] ls = Inr (msgs, fcs)"
    using rd by (simp add: read_messages_since_adv_def)
  then have msgs: "msgs = filter (newer w) (events_adv lower ls)"
    using read_loop_adv_events by fastforce
  have "last msgs \<in> set msgs"
    using ne by simp
  then have kept: "newer w (last msgs)"
    using msgs by simp
  have "\<not> isl (entry_msg_adv lower e)"
    if "Entry e \<in> set ls" and "\<not> skipped ?w' (get_str (e_timestamp e))" for e
  proof -
    have "\<not> skipped w (get_str (e_timestamp e))"
      using that(2) skipped_later [OF _ kept ts] by blast
    with loop that(1) show ?thesis
      by (rule read_loop_adv_returned)
  qed
  then obtain msgs2 fcs2 where again: "read_loop_adv lower ?w' [] [] ls = Inr (msgs2, fcs2)"
    using read_loop_adv_returns [of ls ?w' lower "[]" "[]"] by blast
  then have "msgs2 = filter (newer ?w') (events_adv lower ls)"
    using read_loop_adv_events by fastforce
  also have "\<dots> = filter (\<lambda>m. timestamp m = []) msgs"
    using reread_from_last_kept [of w "events_adv lower ls"] ne ts srt msgs by simp
  finally show ?thesis
    using again by (simp add: read_messages_since_adv_def)
qed

text \<open>
  C4, as amended.  The cursor returns, in append order, exactly the events of the
  transcript whose timestamp is strictly after the watermark or is empty, and every event
  when no watermark is set; with no transcript file it returns nothing.  It is a function
  of the transcript and the watermark alone, so reading twice with the same watermark
  yields the same sequence.  When the timestamps that are present do not decrease in
  append order, reading again with the watermark set to the last returned event's
  timestamp (when it has one) yields exactly the returned events without a timestamp:
  the empty sequence when every event carries one.  The same holds for the cursor of
  the advanced worker whenever its first read returns, and then the second read returns
  too.
\<close>

theorem cursor_reads_after_watermark:
  "read_messages_since (Some ls) w = events_after w ls
   \<and> read_messages_since None w = []
   \<and> (read_messages_since (Some ls) w \<noteq> []
        \<and> timestamp (last (read_messages_since (Some ls) w)) \<noteq> []
        \<and> sorted (filter (\<lambda>t. t \<noteq> []) (map timestamp (events ls))) \<longrightarrow>
      read_messages_since (Some ls) (Some (timestamp (last (read_messages_since (Some ls) w)))) =
        filter (\<lambda>m. timestamp m = []) (read_messages_since (Some ls) w))
   \<and> (read_messages_since_adv lower (Some ls) w = Inr (msgs, fcs) \<longrightarrow>
        msgs = filter (newer w) (events_adv lower ls))
   \<and> read_messages_since_adv lower None w = Inr ([], [])
   \<and> (read_messages_since_adv lower (Some ls) w = Inr (msgs, fcs)
        \<and> msgs \<noteq> [] \<and> timestamp (last msgs) \<noteq> []
        \<and> sorted (filter (\<lambda>t. t \<noteq> []) (map timestamp (events_adv lower ls))) \<longrightarrow>
      (\<exists>fcs2. read_messages_since_adv lower (Some ls) (Some (timestamp (last msgs))) =
         Inr (filter (\<lambda>m. timestamp m = []) msgs, fcs2)))"
proof -
  have basic: "read_messages_since (Some ls) (Some (timestamp (last (read_messages_since (Some ls) w)))) =
        filter (\<lambda>m. timestamp m = []) (read_messages_since (Some ls) w)"
    if "read_messages_since (Some ls) w \<noteq> []"
      and "timestamp (last (read_messages_since (Some ls) w)) \<noteq> []"
      and "sorted (filter (\<lambda>t. t \<noteq> []) (map timestamp (events ls)))"
  proof -
    have "filter (newer w) (events ls) \<noteq> []"
      and "timestamp (last (filter (newer w) (events ls))) \<noteq> []"
      using that(1,2) by (simp_all add: read_messages_since_events_after events_after_def)
    from reread_from_last_kept [OF this that(3)] show ?thesis
      by (simp add: read_messages_since_events_after events_after_def)
  qed
  have adv: "msgs = filter (newer w) (events_adv lower ls)"
    if "read_messages_since_adv lower (Some ls) w = Inr (msgs, fcs)"
    using that read_loop_adv_events [of lower w "[]" "[]" ls msgs fcs]
    by (simp add: read_messages_since_adv_def)
  show ?thesis
    using basic adv reread_adv [of lower ls w msgs fcs]
    by (simp add: read_messages_since_events_after)
       (simp add: read_messages_since_def read_messages_since_adv_def)
qed

lemma two_events_read:
  "events two_events = [plain_msg ''01'' ''user'' ''hi'', plain_msg ''02'' ''assistant'' ''ok'']"
  "events_adv (\<lambda>s. s) two_events =
     [plain_msg ''01'' ''user'' ''hi'', plain_msg ''02'' ''assistant'' ''ok'']"
  "read_messages_since (Some two_events) (Some ''01'') = [plain_msg ''02'' ''assistant'' ''ok'']"
  "read_messages_since_adv (\<lambda>s. s) (Some two_events) (Some ''01'') =
     Inr ([plain_msg ''02'' ''assistant'' ''ok''], [])"
  by (simp_all add: events_def events_adv_def read_messages_since_def
      read_messages_since_adv_def skipped_def two_events_def plain_entry_def plain_msg_def
      entry_msg_def entry_msg_adv_def Let_def get_str_def strip_def py_isspace_def)

theorem cursor_reads_after_watermark_witness:
  "read_messages_since (Some two_events) (Some ''01'') = [plain_msg ''02'' ''assistant'' ''ok'']
   \<and> timestamp (last (read_messages_since (Some two_events) (Some ''01''))) = ''02''
   \<and> sorted (filter (\<lambda>t. t \<noteq> []) (map timestamp (events two_events)))
   \<and> events_after (Some ''01'') two_events = [plain_msg ''02'' ''assistant'' ''ok'']
   \<and> read_messages_since (Some two_events) (Some ''02'') = []
   \<and> read_messages_since_adv (\<lambda>s. s) (Some two_events) (Some ''01'') =
       Inr ([plain_msg ''02'' ''assistant'' ''ok''], [])
   \<and> sorted (filter (\<lambda>t. t \<noteq> []) (map timestamp (events_adv (\<lambda>s. s) two_events)))
   \<and> filter (newer (Some ''01'')) (events_adv (\<lambda>s. s) two_events) =
       [plain_msg ''02'' ''assistant'' ''ok'']
   \<and> (\<exists>fcs2. read_messages_since_adv (\<lambda>s. s) (Some two_events) (Some ''02'') = Inr ([], fcs2))"
proof -
  have ts: "timestamp (plain_msg ''02'' ''assistant'' ''ok'') = ''02''"
    "timestamp (plain_msg ''01'' ''user'' ''hi'') = ''01''"
    by (simp_all add: plain_msg_def)
  have ea: "events_after (Some ''01'') two_events = [plain_msg ''02'' ''assistant'' ''ok'']"
    using two_events_read(3) by (simp add: read_messages_since_events_after)
  from cursor_reads_after_watermark [of two_events "Some ''01''" "\<lambda>s. s"
      "[plain_msg ''02'' ''assistant'' ''ok'']" "[]"]
  show ?thesis
    by (simp add: two_events_read ts ea)
qed

text \<open>
  C4 as stated fails on an event without timestamp: it is returned although its
  timestamp is not after the watermark, and it is returned again after the watermark
  has moved.
\<close>

theorem untimed_event_read_counterexample:
  "read_messages_since (Some [Entry (plain_entry None ''user'' ''hi'')])
     (Some ''2024-05-01T10:00:00Z'') = [plain_msg [] ''user'' ''hi'']
   \<and> \<not> (''2024-05-01T10:00:00Z'' < timestamp (plain_msg [] ''user'' ''hi''))"
  by (simp add: read_messages_since_def skipped_def entry_msg_def Let_def get_str_def
      strip_def py_isspace_def plain_entry_def plain_msg_def)

text \<open>
  C10.  Whatever the watermark (set or not), an entry of the transcript whose timestamp
  is missing or empty and that yields a message is in the cursor's output: every pass
  reads it again.  This holds for the review worker's cursor, and for the advanced
  worker's cursor whenever that one returns.
\<close>

theorem untimed_entry_always_read:
  assumes "Entry e \<in> set ls"
    and "e_timestamp e = None \<or> e_timestamp e = Some []"
  shows "(entry_msg e = Some m \<longrightarrow> m \<in> set (read_messages_since (Some ls) w))
       \<and> (entry_msg_adv lower e = Inr (Some m', fc)
            \<and> read_messages_since_adv lower (Some ls) w = Inr (msgs, fcs) \<longrightarrow>
          m' \<in> set msgs)"
proof -
  have basic: "m \<in> set (read_messages_since (Some ls) w)" if "entry_msg e = Some m"
  proof -
    have "m \<in> set (events ls)"
      using assms(1) that by (force simp add: events_def List.map_filter_def)
    moreover have "timestamp m = []"
      using entry_msg_timestamp [OF that] assms(2) by (auto simp add: get_str_def)
    then have "newer w m"
      by (simp add: newer_def split: option.splits)
    ultimately show ?thesis
      by (simp add: read_messages_since_events_after events_after_def)
  qed
  have adv: "m' \<in> set msgs"
    if e: "entry_msg_adv lower e = Inr (Some m', fc)"
      and rd: "read_messages_since_adv lower (Some ls) w = Inr (msgs, fcs)"
  proof -
    have "m' \<in> set (events_adv lower ls)"
      using assms(1) e by (force simp add: events_adv_def List.map_filter_def)
    moreover have "timestamp m' = []"
      using entry_msg_adv_timestamp [OF e] assms(2) by (auto simp add: get_str_def)
    then have "newer w m'"
      by (simp add: newer_def split: option.splits)
    moreover have "msgs = filter (newer w) (events_adv lower ls)"
      using rd read_loop_adv_events [of lower w "[]" "[]" ls msgs fcs]
      by (simp add: read_messages_since_adv_def)
    ultimately show ?thesis
      by simp
  qed
  from basic adv show ?thesis
    by blast
qed

theorem untimed_entry_always_read_witness:
  "entry_msg (plain_entry None ''user'' ''hi'') = Some (plain_msg [] ''user'' ''hi'')
   \<and> e_timestamp (plain_entry None ''user'' ''hi'') = None
   \<and> plain_msg [] ''user'' ''hi'' \<in> set (read_messages_since
        (Some (two_events @ [Entry (plain_entry None ''user'' ''hi'')])) (Some ''99''))
   \<and> entry_msg_adv (\<lambda>s. s) (plain_entry None ''user'' ''hi'') =
        Inr (Some (plain_msg [] ''user'' ''hi''), [])
   \<and> read_messages_since_adv (\<lambda>s. s)
        (Some (two_events @ [Entry (plain_entry None ''user'' ''hi'')])) (Some ''99'') =
        Inr ([plain_msg [] ''user'' ''hi''], [])"
proof -
  have h1: "Entry (plain_entry None ''user'' ''hi'')
      \<in> set (two_events @ [Entry (plain_entry None ''user'' ''hi'')])"
    by simp
  have h2: "e_timestamp (plain_entry None ''user'' ''hi'') = None
      \<or> e_timestamp (plain_entry None ''user'' ''hi'') = Some []"
    by (simp add: plain_entry_def)
  have h3: "entry_msg (plain_entry None ''user'' ''hi'') = Some (plain_msg [] ''user'' ''hi'')"
    by (simp add: entry_msg_def Let_def get_str_def strip_def py_isspace_def plain_entry_def
        plain_msg_def)
  have h4: "entry_msg_adv (\<lambda>s. s) (plain_entry None ''user'' ''hi'') =
      Inr (Some (plain_msg [] ''user'' ''hi''), [])"
    by (simp add: entry_msg_adv_def Let_def get_str_def strip_def py_isspace_def
        plain_entry_def plain_msg_def)
  have h5: "read_messages_since_adv (\<lambda>s. s)
        (Some (two_events @ [Entry (plain_entry None ''user'' ''hi'')])) (Some ''99'') =
        Inr ([plain_msg [] ''user'' ''hi''], [])"
    by (simp add: read_messages_since_adv_def two_events_def skipped_def get_str_def h4)
       (simp add: plain_entry_def)
  from untimed_entry_always_read [OF h1 h2, of "plain_msg [] ''user'' ''hi''" "Some ''99''"
      "\<lambda>s. s" "plain_msg [] ''user'' ''hi''" "[]" "[plain_msg [] ''user'' ''hi'']" "[]"]
  show ?thesis
    using h2 h3 h4 h5 by (simp add: plain_entry_def)
qed

subsection \<open>The context sanitizer\<close>

lemma splitlines_line_then_newline:
  "\<forall>c \<in> set l. \<not> line_break c \<Longrightarrow> splitlines (l @ CHR 0x0A # rest) = l # splitlines rest"
proof (induction l)
  case Nil
  show ?case by (cases rest) (simp_all add: line_break_def)
next
  case (Cons c l)
  obtain d cs where dcs: "l @ CHR 0x0A # rest = d # cs"
    by (cases "l @ CHR 0x0A # rest") simp_all
  have c: "\<not> line_break c"
    using Cons.prems by simp
  then have "c \<noteq> CHR 0x0D"
    by (auto simp add: line_break_def)
  moreover have "splitlines (d # cs) = l # splitlines rest"
    using Cons dcs by simp
  ultimately have "splitlines (c # d # cs) = (c # l) # splitlines rest"
    using c by simp
  then show ?case
    using dcs by simp
qed

lemma splitlines_one_line:
  "\<forall>c \<in> set l. \<not> line_break c \<Longrightarrow> l \<noteq> [] \<Longrightarrow> splitlines l = [l]"
proof (induction l)
  case Nil
  then show ?case by simp
next
  case (Cons c l)
  show ?case
  proof (cases l)
    case Nil
    then show ?thesis using Cons.prems by simp
  next
    case (Cons d cs)
    have c: "\<not> line_break c" "c \<noteq> CHR 0x0D"
      using Cons.prems by (auto simp add: line_break_def)
    have "splitlines (d # cs) = [d # cs]"
      using Cons.IH Cons.prems Cons by simp
    then show ?thesis
      using c Cons by simp
  qed
qed

lemma splitlines_join_lines:
  assumes "\<forall>c \<in> set m. \<not> line_break c" and "m \<noteq> []"
  shows "ls \<noteq> [] \<Longrightarrow> \<forall>l \<in> set ls. \<forall>c \<in> set l. \<not> line_break c \<Longrightarrow>
         splitlines (join NL ls @ NL @ m) = ls @ [m]"
proof (induction ls)
  case Nil
  then show ?case by simp
next
  case (Cons x xs)
  have x: "\<forall>c \<in> set x. \<not> line_break c"
    using Cons.prems(2) by simp
  show ?case
  proof (cases xs)
    case Nil
    then show ?thesis
      using splitlines_line_then_newline [OF x, of m] splitlines_one_line [OF assms]
      by (simp add: NL_def)
  next
    case (Cons y ys)
    then have "splitlines (join NL xs @ NL @ m) = xs @ [m]"
      using Cons.IH Cons.prems(2) by simp
    moreover have "join NL (x # xs) @ NL @ m = x @ CHR 0x0A # (join NL xs @ NL @ m)"
      using Cons by (simp add: NL_def)
    ultimately show ?thesis
      using splitlines_line_then_newline [OF x, of "join NL xs @ NL @ m"] by simp
  qed
qed

lemma splitlines_join_marker:
  assumes "\<forall>l \<in> set ls. \<forall>c \<in> set l. \<not> line_break c"
    and "\<forall>c \<in> set m. \<not> line_break c" and "m \<noteq> []"
  shows "splitlines (join NL ls @ NL @ m) = (if ls = [] then [[]] else ls) @ [m]"
proof (cases "ls = []")
  case True
  then show ?thesis
    using splitlines_line_then_newline [of "[]" m] splitlines_one_line [OF assms(2,3)]
    by (simp add: NL_def)
next
  case False
  then show ?thesis
    using splitlines_join_lines [OF assms(2,3) False assms(1)] by simp
qed

lemma splitlines_no_break:
  "l \<in> set (splitlines t) \<Longrightarrow> c \<in> set l \<Longrightarrow> \<not> line_break c"
proof (induction t arbitrary: l rule: splitlines.induct)
  case 1
  then show ?case by simp
next
  case (2 c')
  then show ?case by (auto split: if_splits)
next
  case (3 c' d cs)
  then show ?case
    by (auto split: if_splits list.splits) blast+
qed

lemma str_nat_no_break:
  "c \<in> set (str_nat n) \<Longrightarrow> \<not> line_break c"
proof (induction n rule: str_nat.induct)
  case (1 n)
  have digit: "\<not> line_break (char_of (48 + k))" if "k < 10" for k :: nat
  proof -
    have "(48 + k) mod 256 = 48 + k"
      using that by simp
    then have "(of_char (char_of (48 + k)) :: nat) = 48 + k"
      by (simp only: of_char_of)
    then show ?thesis
      using that by (simp add: line_break_def)
  qed
  show ?case
  proof (cases "n < 10")
    case True
    then show ?thesis
      using "1.prems" digit [of n] by (subst (asm) str_nat.simps) auto
  next
    case False
    then have "c \<in> set (str_nat (n div 10)) \<or> c = char_of (48 + n mod 10)"
      using "1.prems" by (subst (asm) str_nat.simps) auto
    then show ?thesis
      using "1.IH" [OF False] digit [of "n mod 10"] by auto
  qed
qed

lemma truncated_marker_no_break:
  "c \<in> set (truncated_marker n) \<Longrightarrow> \<not> line_break c"
  by (auto simp add: truncated_marker_def str_int_def line_break_def
      dest: str_nat_no_break split: if_splits)

lemma truncated_marker_not_empty:
  "truncated_marker n \<noteq> []"
  by (simp add: truncated_marker_def)

text \<open>The cap: nothing changes up to the cap; beyond it the kept lines are followed by
  the marker line.\<close>

lemma line_cap_lines:
  "splitlines (line_cap M t) =
     (if int (length (splitlines t)) > M then
        (if slice_to M (splitlines t) = [] then [[]] else slice_to M (splitlines t))
          @ [truncated_marker (int (length (splitlines t)) - M)]
      else splitlines t)"
proof (cases "int (length (splitlines t)) > M")
  case True
  have "\<forall>l \<in> set (slice_to M (splitlines t)). \<forall>c \<in> set l. \<not> line_break c"
    by (auto simp add: slice_to_def dest: in_set_takeD splitlines_no_break split: if_splits)
  from splitlines_join_marker [OF this _ truncated_marker_not_empty]
  show ?thesis
    using True truncated_marker_no_break by (simp add: line_cap_def Let_def)
next
  case False
  then show ?thesis by (simp add: line_cap_def Let_def)
qed

lemma line_cap_bound:
  assumes "0 < M"
  shows "length (splitlines (line_cap M t)) \<le> nat M + 1"
    and "int (length (splitlines t)) > M \<Longrightarrow>
         splitlines (line_cap M t) =
           take (nat M) (splitlines t) @ [truncated_marker (int (length (splitlines t)) - M)]"
    and "int (length (splitlines t)) \<le> M \<Longrightarrow> line_cap M t = t"
proof -
  have st: "slice_to M (splitlines t) = take (nat M) (splitlines t)"
    using assms by (simp add: slice_to_def)
  show more: "splitlines (line_cap M t) =
      take (nat M) (splitlines t) @ [truncated_marker (int (length (splitlines t)) - M)]"
    if "int (length (splitlines t)) > M"
  proof -
    have "take (nat M) (splitlines t) \<noteq> []"
      using that assms by auto
    then show ?thesis
      using that by (simp add: line_cap_lines st)
  qed
  show "line_cap M t = t" if "int (length (splitlines t)) \<le> M"
    using that by (simp add: line_cap_def Let_def)
  show "length (splitlines (line_cap M t)) \<le> nat M + 1"
  proof (cases "int (length (splitlines t)) > M")
    case True
    then show ?thesis using more by simp
  next
    case False
    then show ?thesis by (simp add: line_cap_lines)
  qed
qed

text \<open>With a cap that is not positive the kept part is empty or cut from the end, and
  the bound of one line above the cap does not hold: at cap 0 the output is an empty
  line and the marker.\<close>

lemma line_cap_zero:
  "splitlines t \<noteq> [] \<Longrightarrow>
   splitlines (line_cap 0 t) = [[], truncated_marker (int (length (splitlines t)))]"
  by (simp add: line_cap_lines slice_to_def)

text \<open>
  C5, as amended.  For every event list and every positive \<open>MAX_LINES_TOTAL\<close>, the
  sanitizer's output has at most \<open>MAX_LINES_TOTAL + 1\<close> lines: when the text before the
  cap has more than \<open>MAX_LINES_TOTAL\<close> lines, the output is its first \<open>MAX_LINES_TOTAL\<close>
  lines followed by one marker line that states the number of omitted lines; otherwise
  the text is returned as it is.  This holds for both workers' \<open>sanitize\<close>.
\<close>

theorem sanitize_line_cap:
  assumes "0 < M"
  shows "length (splitlines (sanitize lib ME M MB msgs)) \<le> nat M + 1
       \<and> (int (length (splitlines (all_text lib ME MB msgs))) > M \<longrightarrow>
            splitlines (sanitize lib ME M MB msgs) =
              take (nat M) (splitlines (all_text lib ME MB msgs))
                @ [truncated_marker (int (length (splitlines (all_text lib ME MB msgs))) - M)])
       \<and> (int (length (splitlines (all_text lib ME MB msgs))) \<le> M \<longrightarrow>
            sanitize lib ME M MB msgs = all_text lib ME MB msgs)
       \<and> length (splitlines (sanitize_enhanced lib ME M MB older msgs)) \<le> nat M + 1
       \<and> (int (length (splitlines (all_text_enhanced lib ME MB older msgs))) > M \<longrightarrow>
            splitlines (sanitize_enhanced lib ME M MB older msgs) =
              take (nat M) (splitlines (all_text_enhanced lib ME MB older msgs))
                @ [truncated_marker
                     (int (length (splitlines (all_text_enhanced lib ME MB older msgs))) - M)])"
  unfolding sanitize_def sanitize_enhanced_def
  using line_cap_bound [OF assms] by blast

lemma example_all_text:
  "all_text no_match_lib 60 500 [three_line_msg] =
     ''USER @ t1'' @ NL @ ''a'' @ NL @ ''b'' @ NL @ ''c'' @ NL"
  by (simp add: all_text_def cleaned_chunk_def slice_from_def Let_def no_match_lib_def
      three_line_msg_def ascii_upper_def char_of_def bit_iff_odd_drop_bit drop_bit_eq_div)

lemma example_all_text_enhanced:
  "all_text_enhanced no_match_lib 60 500 True [three_line_msg] =
     all_text no_match_lib 60 500 [three_line_msg]"
  by (simp add: all_text_def all_text_enhanced_def slice_from_def Let_def)

lemma example_lines:
  "splitlines (all_text no_match_lib 60 500 [three_line_msg]) = [''USER @ t1'', ''a'', ''b'', ''c'']"
  by (simp add: example_all_text NL_def line_break_def)

theorem sanitize_line_cap_witness:
  "(0::int) < 1
   \<and> int (length (splitlines (all_text no_match_lib 60 500 [three_line_msg]))) > 1
   \<and> splitlines (sanitize no_match_lib 60 1 500 [three_line_msg]) =
       [''USER @ t1'', ''... [truncated 3 lines]'']
   \<and> int (length (splitlines (all_text_enhanced no_match_lib 60 500 True [three_line_msg]))) > 1
   \<and> splitlines (sanitize_enhanced no_match_lib 60 1 500 True [three_line_msg]) =
       [''USER @ t1'', ''... [truncated 3 lines]'']
   \<and> int (length (splitlines (all_text no_match_lib 60 500 [three_line_msg]))) \<le> 4
   \<and> sanitize no_match_lib 60 4 500 [three_line_msg] =
       all_text no_match_lib 60 500 [three_line_msg]"
proof -
  have m: "truncated_marker 3 = ''... [truncated 3 lines]''"
    by (simp add: truncated_marker_def str_int_def str_nat.simps char_of_def
        bit_iff_odd_drop_bit drop_bit_eq_div)
  from sanitize_line_cap [of 1 no_match_lib 60 500 "[three_line_msg]" True]
       sanitize_line_cap [of 4 no_match_lib 60 500 "[three_line_msg]" True]
  show ?thesis
    by (simp add: example_all_text_enhanced example_lines m)
qed

text \<open>
  C5 as stated fails by one line: with a cap of two lines and a text of four, the output
  has the two kept lines and the marker line.
\<close>

theorem sanitize_exceeds_cap_counterexample:
  "splitlines (sanitize no_match_lib 60 2 500 [three_line_msg]) =
     [''USER @ t1'', ''a'', ''... [truncated 2 lines]'']
   \<and> (2::int) < int (length (splitlines (sanitize no_match_lib 60 2 500 [three_line_msg])))"
proof -
  have "sanitize no_match_lib 60 2 500 [three_line_msg] =
      ''USER @ t1'' @ NL @ ''a'' @ NL @ ''... [truncated 2 lines]''"
    by (simp add: sanitize_def line_cap_def example_lines slice_to_def Let_def
        truncated_marker_def str_int_def str_nat.simps char_of_def bit_iff_odd_drop_bit
        drop_bit_eq_div NL_def)
  then show ?thesis
    by (simp add: NL_def line_break_def)
qed

subsection \<open>Saving a JSON file\<close>

text \<open>The review worker's save: the target holds the old content until the rename,
  and the new content after it.\<close>

lemma states_not_Nil [simp]:
  "states ops f \<noteq> []"
  by (cases ops) simp_all

lemma writes_then_replace:
  assumes "tmp \<noteq> p"
  shows "g tmp = Some acc \<Longrightarrow>
       (\<forall>f' \<in> set (states (map (Append tmp) chunks @ [Replace tmp p]) g).
            f' p = g p \<or> f' p = Some (acc @ concat chunks))
       \<and> last (states (map (Append tmp) chunks @ [Replace tmp p]) g) p = Some (acc @ concat chunks)"
proof (induction chunks arbitrary: g acc)
  case Nil
  then show ?case using assms by simp
next
  case (Cons c cs)
  define g' where "g' = apply_op (Append tmp c) g"
  have g': "g' tmp = Some (acc @ c)" "g' p = g p"
    using Cons.prems assms by (simp_all add: g'_def get_str_def)
  have "states (map (Append tmp) (c # cs) @ [Replace tmp p]) g =
          g # states (map (Append tmp) cs @ [Replace tmp p]) g'"
    by (simp add: g'_def)
  with Cons.IH [of g' "acc @ c"] g' show ?case
    by simp
qed

lemma save_json_atomic:
  assumes "p_suffix p \<noteq> ''.tmp''"
  shows "(\<forall>f' \<in> set (states (save_json p chunks) f). f' p = f p \<or> f' p = Some (concat chunks))
       \<and> last (states (save_json p chunks) f) p = Some (concat chunks)"
proof -
  define tmp where "tmp = with_suffix p ''.tmp''"
  define g where "g = apply_op (Truncate tmp) f"
  have "p_suffix tmp = ''.tmp''"
    by (simp add: tmp_def with_suffix_def)
  with assms have ne: "tmp \<noteq> p"
    by auto
  then have g: "g tmp = Some []" "g p = f p"
    by (simp_all add: g_def)
  have "states (save_json p chunks) f = f # states (map (Append tmp) chunks @ [Replace tmp p]) g"
    by (simp add: save_json_def Let_def tmp_def g_def)
  with writes_then_replace [where tmp = tmp and p = p and g = g and acc = "[]"
      and chunks = chunks] ne g show ?thesis
    by simp
qed

text \<open>
  C6: the code at a save of the enhanced (and of the advanced) worker, for any old
  record \<open>old\<close> and any new text \<open>new\<close>.  The target is opened for writing in place:
  between the \<open>open\<close> and the write a reader finds the file empty, neither the old
  record nor the new one.  The review worker's \<open>save_json\<close>, on the same input, shows
  the old record until the rename.
\<close>

theorem save_in_place_shows_partial_file:
  "map (\<lambda>f. f memory_json)
     (states (save_json_enhanced memory_json [new]) [memory_json \<mapsto> old]) =
     [Some old, Some [], Some new]
   \<and> map (\<lambda>f. f memory_json)
     (states (save_json memory_json [new]) [memory_json \<mapsto> old]) =
     [Some old, Some old, Some old, Some new]"
  by (simp add: save_json_enhanced_def save_json_def with_suffix_def memory_json_def
      get_str_def Let_def)

subsection \<open>The bounded lists of the memory record\<close>

lemma length_slice_from_last:
  "0 < n \<Longrightarrow> length (slice_from (- int n) xs) \<le> n"
  by (simp add: slice_from_def)

lemma cap_20: "length (slice_from (- 20) xs) \<le> 20"
  using length_slice_from_last [of 20 xs] by simp

lemma cap_30: "length (slice_from (- 30) xs) \<le> 30"
  using length_slice_from_last [of 30 xs] by simp

lemma cap_50: "length (slice_from (- 50) xs) \<le> 50"
  using length_slice_from_last [of 50 xs] by simp

text \<open>First in, first out: the entries kept are the last ones, in their order; once
  \<open>n\<close> entries have been appended, they are what is left.\<close>

lemma slice_from_last_drop:
  "0 < n \<Longrightarrow> slice_from (- int n) xs = drop (length xs - n) xs"
  by (simp add: slice_from_def nat_diff_distrib' del: of_nat_diff)

lemma slice_from_last_appended:
  "0 < n \<Longrightarrow> length ys = n \<Longrightarrow> slice_from (- int n) (xs @ ys) = ys"
  by (simp add: slice_from_last_drop)

text \<open>The merge itself leaves every list within its cap, whatever it was given.\<close>

lemma build_rich_memory_caps:
  "length (active_features (get_lifecycle (build_rich_memory lower file_of mem msgs fcs))) \<le> 20
   \<and> length (completed_features (get_lifecycle (build_rich_memory lower file_of mem msgs fcs))) \<le> 20
   \<and> length (struggling_features (get_lifecycle (build_rich_memory lower file_of mem msgs fcs))) \<le> 20
   \<and> length (removed_features (get_lifecycle (build_rich_memory lower file_of mem msgs fcs))) \<le> 20
   \<and> length (technical_decisions (build_rich_memory lower file_of mem msgs fcs)) \<le> 30"
  by (simp add: build_rich_memory_def get_lifecycle_def Let_def cap_20 cap_30)

lemma advanced_finish_insights_cap:
  "length (ai_insights mem) \<le> 20 \<Longrightarrow>
   length (ai_insights (fst (advanced_finish T ttl nw result msgs mem pend))) \<le> 20"
  by (simp add: advanced_finish_def Let_def cap_20 split: option.splits prod.splits)

lemma enhanced_key_decisions_cap:
  "length (enhanced_key_decisions nw old new key_decs) \<le> 50"
  by (simp add: enhanced_key_decisions_def cap_50)

text \<open>
  C7: the code at a pass of the advanced worker whose verdict advises a rollback.  The
  merge cuts \<open>struggling_features\<close> to its last twenty entries; \<open>main\<close> then appends
  the advice of the verdict and saves the memory without cutting again: the saved list
  has twenty-one entries.
\<close>

theorem struggling_features_exceed_cap:
  "length (struggling_features (get_lifecycle
      (build_rich_memory (\<lambda>s. s) (\<lambda>s. None) full_memory [short_msg] []))) = 20
   \<and> length (struggling_features (get_lifecycle (fst
      (advanced_pass (\<lambda>s. s) (\<lambda>s. None) 0 900 1000 rollback_verdict [short_msg] []
         full_memory Absent)))) = 21"
  by (simp add: advanced_pass_def advanced_finish_def build_rich_memory_def get_lifecycle_def
      full_memory_def rollback_verdict_def short_msg_def slice_from_def Let_def get_str_def
      get_score_def)

subsection \<open>The nudge gate\<close>

text \<open>The review worker writes a pending record exactly when the verdict asks to
  intervene, its score reaches the threshold, its body (stripped) is not empty and the
  hash of the body differs from the hash in memory; the record holds that body, and
  the hash goes to memory.\<close>

lemma review_main_gate:
  assumes "msgs \<noteq> []"
  shows "snd (review_main sha256 T ttl nw out msgs mem Absent) =
           (if gate_open sha256 T out mem then
              Pending \<lparr>created_at = Aware nw, ttl_seconds = Some ttl,
                nudge_markdown = Some (strip (get_str (v_nudge_markdown out))),
                commands = v_commands out, score = get_score out,
                reason = Some (get_str (v_reason out))\<rparr>
            else Absent)"
    and "last_nudge_hash (fst (review_main sha256 T ttl nw out msgs mem Absent)) =
           (if gate_open sha256 T out mem
            then Some (sha256 (strip (get_str (v_nudge_markdown out))))
            else last_nudge_hash mem)"
  using assms by (auto simp add: review_main_def gate_open_def Let_def)

lemma review_main_no_messages:
  "review_main sha256 T ttl nw out [] mem pend = (mem, pend)"
  by (simp add: review_main_def)

text \<open>The hash of the body of a record, and the records a run of passes wrote.\<close>

lemma review_passes_no_repeat:
  "distinct_adj (map (\<lambda>d. sha256 (get_str (nudge_markdown d)))
       (List.map_filter (\<lambda>r. r) (review_passes sha256 T ttl mem ps)))
   \<and> (\<forall>d \<in> set (take 1 (List.map_filter (\<lambda>r. r) (review_passes sha256 T ttl mem ps))).
         Some (sha256 (get_str (nudge_markdown d))) \<noteq> last_nudge_hash mem)"
proof (induction ps arbitrary: mem)
  case Nil
  then show ?case by simp
next
  case (Cons p ps)
  obtain nw out msgs where p: "p = (nw, out, msgs)"
    by (cases p)
  let ?r = "review_main sha256 T ttl nw out msgs mem Absent"
  let ?recs = "List.map_filter (\<lambda>r. r) (review_passes sha256 T ttl (fst ?r) ps)"
  let ?h = "\<lambda>d. sha256 (get_str (nudge_markdown d))"
  note IH = Cons.IH [of "fst ?r"]
  show ?case
  proof (cases "msgs \<noteq> [] \<and> gate_open sha256 T out mem")
    case True
    then obtain d where d: "snd ?r = Pending d"
      and body: "nudge_markdown d = Some (strip (get_str (v_nudge_markdown out)))"
      by (simp add: review_main_gate)
    have mem': "last_nudge_hash (fst ?r) = Some (?h d)"
      using True body by (simp add: review_main_gate get_str_def)
    have new: "Some (?h d) \<noteq> last_nudge_hash mem"
      using True body by (simp add: gate_open_def Let_def get_str_def)
    have next_differs: "\<forall>d' \<in> set (take 1 ?recs). ?h d' \<noteq> ?h d"
      using IH mem' by auto
    have "distinct_adj (?h d # map ?h ?recs)"
    proof (cases ?recs)
      case Nil
      then show ?thesis by simp
    next
      case (Cons d' ds)
      then show ?thesis
        using IH next_differs by (auto simp add: distinct_adj_Cons)
    qed
    moreover have "review_passes sha256 T ttl mem (p # ps) =
        Some d # review_passes sha256 T ttl (fst ?r) ps"
      using p d by (cases ?r) simp
    ultimately show ?thesis
      using new by simp
  next
    case False
    then have quiet: "snd ?r = Absent" and same: "last_nudge_hash (fst ?r) = last_nudge_hash mem"
      by (cases "msgs = []"; simp add: review_main_gate review_main_no_messages)+
    have "review_passes sha256 T ttl mem (p # ps) =
        None # review_passes sha256 T ttl (fst ?r) ps"
      using p quiet by (cases ?r) simp
    then show ?thesis
      using IH same by simp
  qed
qed

text \<open>
  C1: the code at the gate of the advanced worker.  It tests the flag and the score
  only (its threshold is the constant 0).  The same verdict in two passes in a row is
  written twice, with the same body; and a verdict without body is written too.
\<close>

theorem advanced_gate_repeats_nudge:
  "snd (advanced_finish 0 900 1000 (intervene (Some ''Run the tests'')) [short_msg] full_memory
          Absent) =
     Pending \<lparr>created_at = Aware 1000, ttl_seconds = Some 900,
       nudge_markdown = Some ''Run the tests'', commands = [], score = 0.9,
       reason = Some ''why''\<rparr>
   \<and> snd (advanced_finish 0 900 2000 (intervene (Some ''Run the tests'')) [short_msg]
          (fst (advanced_finish 0 900 1000 (intervene (Some ''Run the tests'')) [short_msg]
                  full_memory Absent))
          Absent) =
     Pending \<lparr>created_at = Aware 2000, ttl_seconds = Some 900,
       nudge_markdown = Some ''Run the tests'', commands = [], score = 0.9,
       reason = Some ''why''\<rparr>
   \<and> snd (advanced_finish 0 900 1000 (intervene None) [short_msg] full_memory Absent) =
     Pending \<lparr>created_at = Aware 1000, ttl_seconds = Some 900,
       nudge_markdown = Some [], commands = [], score = 0.9, reason = Some ''why''\<rparr>"
  by (simp add: advanced_finish_def intervene_def get_score_def get_str_def Let_def)

end
